theory Spec2Isabelle
  imports Complex_Main "HOL-Library.Sublist" "HOL-Library.List_Lexorder" "HOL-Library.Char_ord"
begin

section \<open>Data model\<close>

text \<open>
  A row of the segment table (a pandas row of the DataFrame handed to the engines).
  \<open>row_index\<close> is the row's label (\<open>idx\<close> of \<open>iterrows()\<close>, \<open>row.name\<close>);
  \<open>match_name\<close> is \<open>None\<close> when the cell holds Python's \<open>None\<close> instead of a
  \<open>str\<close>. Positions are Python's unbounded integers; centimorgans are kept as
  rationals (only their order and sums are used).
\<close>

record segment =
  row_index :: int
  match_name :: "string option"
  chromosome :: string
  start_location :: int
  end_location :: int
  centimorgans :: rat
  matching_snps :: int

datatype py_error = AttributeError | ValueError | IndexError

text \<open>
  \<open>overlap_end - overlap_start\<close> with \<open>overlap_start = max(start1, start2)\<close> and
  \<open>overlap_end = min(end1, end2)\<close>: the simple engine compares this difference with the
  threshold as it is; the optimized and the original engine clamp it at 0 first.
\<close>

definition overlap_length :: "segment \<Rightarrow> segment \<Rightarrow> int" where
  "overlap_length a b =
     min (end_location a) (end_location b) - max (start_location a) (start_location b)"

definition overlap_bp :: "segment \<Rightarrow> segment \<Rightarrow> int" where
  "overlap_bp a b = max 0 (overlap_length a b)"

section \<open>The optimized engine (optimized\_triangulation.py)\<close>

subsection \<open>Collecting the star of one seed\<close>

text \<open>
  Lines 106 to 126: the scan \<open>for j, segment2 in enumerate(segments)\<close> for the seed
  \<open>segment1\<close> at position \<open>i\<close>. The state is the pair
  \<open>(current_group, current_group_indices)\<close>; the set of labels is kept as a list.
\<close>

fun collect_optimized ::
  "int \<Rightarrow> nat \<Rightarrow> segment \<Rightarrow> (nat \<times> segment) list \<Rightarrow> segment list \<times> int list
    \<Rightarrow> segment list \<times> int list" where
  "collect_optimized T i segment1 [] st = st"
| "collect_optimized T i segment1 ((j, segment2) # rest) (current_group, current_group_indices) =
     (if j = i \<or> row_index segment2 \<in> set current_group_indices
      then collect_optimized T i segment1 rest (current_group, current_group_indices)
      else if T \<le> overlap_bp segment1 segment2
      then collect_optimized T i segment1 rest
             (current_group @ [segment2], current_group_indices @ [row_index segment2])
      else collect_optimized T i segment1 rest (current_group, current_group_indices))"

text \<open>
  Line 130, \<open>any(seg['match_name'].startswith('Kenneth') for seg in current_group)\<close>:
  the generator stops at the first member whose name has the prefix, and raises
  AttributeError at a member whose name is not a string.
\<close>

fun any_kenneth :: "segment list \<Rightarrow> py_error + bool" where
  "any_kenneth [] = Inr False"
| "any_kenneth (seg # segs) =
     (case match_name seg of
        None \<Rightarrow> Inl AttributeError
      | Some name \<Rightarrow> if prefix ''Kenneth'' name then Inr True else any_kenneth segs)"

subsection \<open>The seed loop of one chromosome\<close>

text \<open>
  Lines 93 to 145: \<open>for i, segment1 in enumerate(segments)\<close>, over the remaining
  positions, with the state \<open>(groups, processed_indices)\<close>. \<open>dbg\<close> is
  \<open>debug and chromosome == '1'\<close>: the traces themselves are left out, the
  \<open>startswith\<close> calls that guard them are kept because they raise on a name that is
  not a string (line 101 for the seed, line 130 for the members of an emitted group).
\<close>

fun group_loop_optimized ::
  "bool \<Rightarrow> int \<Rightarrow> int \<Rightarrow> segment list \<Rightarrow> (nat \<times> segment) list \<Rightarrow> segment list list \<Rightarrow> int list
    \<Rightarrow> py_error + segment list list" where
  "group_loop_optimized dbg T k segments [] groups processed_indices = Inr groups"
| "group_loop_optimized dbg T k segments ((i, segment1) # rest) groups processed_indices =
     (if row_index segment1 \<in> set processed_indices
      then group_loop_optimized dbg T k segments rest groups processed_indices
      else if dbg \<and> match_name segment1 = None then Inl AttributeError
      else
        let current_group =
              fst (collect_optimized T i segment1 (enumerate 0 segments)
                     ([segment1], [row_index segment1]))
        in if k \<le> int (length current_group)
           then (case (if dbg then any_kenneth current_group else Inr False) of
                   Inl e \<Rightarrow> Inl e
                 | Inr _ \<Rightarrow>
                     group_loop_optimized dbg T k segments rest (groups @ [current_group])
                       (processed_indices @ map row_index current_group))
           else group_loop_optimized dbg T k segments rest groups processed_indices)"

text \<open>
  \<open>_process_chromosome_optimized(args)\<close>: \<open>segments.sort(key=lambda x: x['start'])\<close> is
  Python's stable sort, then the seed loop from the empty state.
\<close>

definition sorted_segments :: "segment list \<Rightarrow> segment list" where
  "sorted_segments chr_data = sort_key start_location chr_data"

fun process_chromosome_optimized ::
  "string \<times> segment list \<times> int \<times> int \<times> bool \<Rightarrow> py_error + segment list list" where
  "process_chromosome_optimized (chrom, chr_data, min_overlap_bp, min_group_size, debug) =
     (let segments = sorted_segments chr_data
      in group_loop_optimized (debug \<and> chrom = ''1'') min_overlap_bp min_group_size
           segments (enumerate 0 segments) [] [])"

subsection \<open>Scheduling the chromosomes\<close>

text \<open>
  \<open>data.groupby('Chromosome')\<close>: one partition per distinct key, keys in ascending
  order, the rows of a partition in their input order.
\<close>

definition groupby_chromosome :: "segment list \<Rightarrow> (string \<times> segment list) list" where
  "groupby_chromosome data =
     map (\<lambda>c. (c, filter (\<lambda>s. chromosome s = c) data)) (sort (remdups (map chromosome data)))"

text \<open>
  \<open>pool.map(worker, args_list)\<close>: the results in the order of the arguments, or the
  exception of a failed task re-raised in the caller, in which case no result is returned.
\<close>

fun pool_map :: "('a \<Rightarrow> py_error + 'b) \<Rightarrow> 'a list \<Rightarrow> py_error + 'b list" where
  "pool_map f [] = Inr []"
| "pool_map f (x # xs) =
     (case f x of
        Inl e \<Rightarrow> Inl e
      | Inr y \<Rightarrow> (case pool_map f xs of Inl e \<Rightarrow> Inl e | Inr ys \<Rightarrow> Inr (y # ys)))"

text \<open>
  \<open>detect_triangulation_groups_optimized(data, min_overlap_bp, min_group_size,
  max_workers, debug)\<close>. \<open>cpu_count\<close> is the machine's \<open>cpu_count()\<close>;
  \<open>Pool(processes=n)\<close> raises ValueError for \<open>n < 1\<close>.
\<close>

definition args_list_of ::
  "segment list \<Rightarrow> int \<Rightarrow> int \<Rightarrow> bool \<Rightarrow> (string \<times> segment list \<times> int \<times> int \<times> bool) list" where
  "args_list_of data min_overlap_bp min_group_size debug =
     map (\<lambda>(c, chr_data). (c, chr_data, min_overlap_bp, min_group_size, debug))
       (filter (\<lambda>(c, chr_data). min_group_size \<le> int (length chr_data))
          (groupby_chromosome data))"

definition detect_triangulation_groups_optimized ::
  "nat \<Rightarrow> segment list \<Rightarrow> int \<Rightarrow> int \<Rightarrow> int option \<Rightarrow> bool \<Rightarrow> py_error + segment list list" where
  "detect_triangulation_groups_optimized cpu_count data min_overlap_bp min_group_size
      max_workers debug =
     (let workers = (case max_workers of None \<Rightarrow> max 1 (int cpu_count - 1) | Some w \<Rightarrow> w);
          args_list = args_list_of data min_overlap_bp min_group_size debug
      in if args_list \<noteq> []
         then (if workers < 1 then Inl ValueError
               else case pool_map process_chromosome_optimized args_list of
                      Inl e \<Rightarrow> Inl e
                    | Inr results \<Rightarrow> Inr (concat results))
         else Inr [])"

section \<open>The simple engine (simple\_triangulation.py)\<close>

text \<open>
  \<open>_find_overlapping_groups_simple\<close> identifies a segment by its position in
  \<open>segments\<close> (\<open>used_segments\<close> and \<open>current_indices\<close> hold positions), so a segment
  object is modelled as the pair of its position and its row. The scan of lines 75 to 100
  has the state \<open>(current_group, current_indices)\<close>; the overlap is not clamped at 0
  here, and the test against \<open>used_segments\<close> is the one the optimized engine does not
  make.
\<close>

fun collect_simple ::
  "int \<Rightarrow> nat \<Rightarrow> segment \<Rightarrow> nat list \<Rightarrow> (nat \<times> segment) list
    \<Rightarrow> (nat \<times> segment) list \<times> nat list \<Rightarrow> (nat \<times> segment) list \<times> nat list" where
  "collect_simple T i segment1 used_segments [] st = st"
| "collect_simple T i segment1 used_segments ((j, segment2) # rest)
      (current_group, current_indices) =
     (if j = i \<or> j \<in> set used_segments
      then collect_simple T i segment1 used_segments rest (current_group, current_indices)
      else if T \<le> overlap_length segment1 segment2
      then collect_simple T i segment1 used_segments rest
             (current_group @ [(j, segment2)], current_indices @ [j])
      else collect_simple T i segment1 used_segments rest (current_group, current_indices))"

text \<open>Lines 62 to 121: the seed loop, with the state \<open>(groups, used_segments)\<close>.\<close>

fun group_loop_simple ::
  "int \<Rightarrow> int \<Rightarrow> segment list \<Rightarrow> (nat \<times> segment) list \<Rightarrow> (nat \<times> segment) list list \<Rightarrow> nat list
    \<Rightarrow> (nat \<times> segment) list list" where
  "group_loop_simple T k segments [] groups used_segments = groups"
| "group_loop_simple T k segments ((i, segment1) # rest) groups used_segments =
     (if i \<in> set used_segments then group_loop_simple T k segments rest groups used_segments
      else
        let st = collect_simple T i segment1 used_segments (enumerate 0 segments)
                   ([(i, segment1)], [i])
        in if k \<le> int (length (fst st))
           then group_loop_simple T k segments rest (groups @ [fst st]) (used_segments @ snd st)
           else group_loop_simple T k segments rest groups used_segments)"

definition find_overlapping_positions_simple ::
  "segment list \<Rightarrow> int \<Rightarrow> int \<Rightarrow> (nat \<times> segment) list list" where
  "find_overlapping_positions_simple segments min_overlap_bp min_group_size =
     group_loop_simple min_overlap_bp min_group_size segments (enumerate 0 segments) [] []"

text \<open>\<open>group_data = [seg['data'] for seg in current_group]\<close>: the rows of the members.\<close>

definition find_overlapping_groups_simple ::
  "segment list \<Rightarrow> int \<Rightarrow> int \<Rightarrow> segment list list" where
  "find_overlapping_groups_simple segments min_overlap_bp min_group_size =
     map (map snd) (find_overlapping_positions_simple segments min_overlap_bp min_group_size)"

text \<open>
  \<open>detect_triangulation_simple\<close>: the chromosomes one after the other, each in the row
  order of the input (there is no sort). The debug text it also builds is not modelled.
\<close>

definition detect_triangulation_simple :: "segment list \<Rightarrow> int \<Rightarrow> int \<Rightarrow> segment list list" where
  "detect_triangulation_simple data min_overlap_bp min_group_size =
     concat (map (\<lambda>(c, chr_data).
                    find_overlapping_groups_simple chr_data min_overlap_bp min_group_size)
               (filter (\<lambda>(c, chr_data). \<not> int (length chr_data) < min_group_size)
                  (groupby_chromosome data)))"

section \<open>The original engine (painter.py)\<close>

text \<open>
  Lines 91 to 109 of \<open>detect_triangulation_groups\<close>: the scan for \<open>row1\<close>. \<open>i\<close> and
  \<open>j\<close> are row labels here, and a row is added only if no member of the group has its
  label.
\<close>

fun collect_original :: "int \<Rightarrow> segment \<Rightarrow> segment list \<Rightarrow> segment list \<Rightarrow> segment list" where
  "collect_original T row1 [] current_group = current_group"
| "collect_original T row1 (row2 # rest) current_group =
     (if row_index row2 \<le> row_index row1 then collect_original T row1 rest current_group
      else if T \<le> overlap_bp row1 row2
      then (if row_index row2 \<in> row_index ` set current_group
            then collect_original T row1 rest current_group
            else collect_original T row1 rest (current_group @ [row2]))
      else collect_original T row1 rest current_group)"

text \<open>
  Lines 88 to 122: every row is a seed; a group whose set of match names equals that of a
  group already kept for the chromosome is dropped.
\<close>

fun group_loop_original ::
  "int \<Rightarrow> int \<Rightarrow> segment list \<Rightarrow> segment list \<Rightarrow> segment list list \<Rightarrow> segment list list" where
  "group_loop_original T k chr_data [] groups = groups"
| "group_loop_original T k chr_data (row1 # rest) groups =
     (let current_group = collect_original T row1 chr_data [row1]
      in if k \<le> int (length current_group)
         then (if set (map match_name current_group) \<in> (\<lambda>g. set (map match_name g)) ` set groups
               then group_loop_original T k chr_data rest groups
               else group_loop_original T k chr_data rest (groups @ [current_group]))
         else group_loop_original T k chr_data rest groups)"

text \<open>\<open>Series.unique()\<close>: the distinct values in the order of their first occurrence.\<close>

definition unique_values :: "'a list \<Rightarrow> 'a list" where
  "unique_values xs = rev (remdups (rev xs))"

text \<open>
  \<open>sort_values\<close> stands for \<open>chr_data.sort_values('Start Location')\<close>, whose order on
  equal starts pandas leaves open; it is a parameter.
\<close>

definition detect_triangulation_groups ::
  "(segment list \<Rightarrow> segment list) \<Rightarrow> segment list \<Rightarrow> int \<Rightarrow> int \<Rightarrow> segment list list" where
  "detect_triangulation_groups sort_values data min_overlap_bp min_group_size =
     concat (map (\<lambda>c. let chr_data = sort_values (filter (\<lambda>s. chromosome s = c) data)
                       in group_loop_original min_overlap_bp min_group_size chr_data chr_data [])
               (unique_values (map chromosome data)))"

section \<open>The caller (dna\_gui\_main.py)\<close>

text \<open>
  \<open>run_analysis\<close> of \<open>run_triangulation\<close>, the branch of the optimized engine (lines 704
  to 740): the engine is called with the default worker count and \<open>debug=True\<close>; any
  exception is caught and turned into the one message \<open>Error during analysis: ...\<close>.
  \<open>run_triangulation\<close> itself parses the two numbers of the form and tests nothing
  about their values.
\<close>

datatype outcome = Results "segment list list" | AnalysisError py_error

definition run_analysis_optimized :: "nat \<Rightarrow> segment list \<Rightarrow> int \<Rightarrow> int \<Rightarrow> outcome" where
  "run_analysis_optimized cpu_count df min_overlap_bp min_group_size =
     (case detect_triangulation_groups_optimized cpu_count df min_overlap_bp min_group_size
             None True of
        Inl e \<Rightarrow> AnalysisError e
      | Inr groups \<Rightarrow> Results groups)"

section \<open>Surname extraction\<close>

text \<open>
  \<open>extract_surname\<close> is the same method in simple\_triangulation.py,
  optimized\_triangulation.py and dna\_database.py. A Python \<open>str\<close> is modelled as a
  \<open>string\<close>, so names are limited to the code points below 256; \<open>is_space\<close> is
  \<open>str.isspace\<close> on those, the characters \<open>strip()\<close> and \<open>split()\<close> treat as
  whitespace.
\<close>

definition is_space :: "char \<Rightarrow> bool" where
  "is_space c = (of_char c \<in> {9, 10, 11, 12, 13, 28, 29, 30, 31, 32, 133, 160 :: nat})"

text \<open>
  \<open>s.replace(old, "")\<close>: the occurrences of \<open>old\<close> are removed from left to right,
  without overlap. An empty \<open>old\<close> leaves \<open>s\<close> as it is.
\<close>

fun py_remove :: "string \<Rightarrow> string \<Rightarrow> string" where
  "py_remove old [] = []"
| "py_remove old (c # cs) =
     (if old \<noteq> [] \<and> prefix old (c # cs) then py_remove old (drop (length old - 1) cs)
      else c # py_remove old cs)"

definition py_strip :: "string \<Rightarrow> string" where
  "py_strip s = rev (dropWhile is_space (rev (dropWhile is_space s)))"

text \<open>
  \<open>s.split()\<close>: the maximal runs of characters that are not whitespace. \<open>split_from\<close>
  carries the run read so far.
\<close>

fun split_from :: "string \<Rightarrow> string \<Rightarrow> string list" where
  "split_from cur [] = (if cur = [] then [] else [cur])"
| "split_from cur (c # cs) =
     (if is_space c then (if cur = [] then split_from [] cs else cur # split_from [] cs)
      else split_from (cur @ [c]) cs)"

definition py_split :: "string \<Rightarrow> string list" where
  "py_split s = split_from [] s"

definition extract_surname :: "string option \<Rightarrow> string" where
  "extract_surname name_cell =
     (case name_cell of
        None \<Rightarrow> ''Unknown''
      | Some name \<Rightarrow>
          if name = [] then ''Unknown''
          else
            let name_parts =
                  py_split (py_strip (py_remove ''Ph.D.'' (py_remove ''Dr.''
                    (py_remove ''Mrs.'' (py_remove ''Mr.'' name)))))
            in if 2 \<le> length name_parts then last name_parts
               else if name_parts \<noteq> [] then hd name_parts else ''Unknown'')"

text \<open>
  The rule in the words of the specification: strip the four literals, trim, split on
  whitespace; the last token if at least two remain, else the sole token, else
  \<open>Unknown\<close>. A missing name has no tokens.
\<close>

definition surname_tokens :: "string option \<Rightarrow> string list" where
  "surname_tokens name_cell =
     (case name_cell of
        None \<Rightarrow> []
      | Some name \<Rightarrow>
          py_split (py_strip (foldl (\<lambda>s literal. py_remove literal s) name
            [''Mr.'', ''Mrs.'', ''Dr.'', ''Ph.D.''])))"

definition surname_rule :: "string option \<Rightarrow> string" where
  "surname_rule name_cell =
     (case surname_tokens name_cell of
        [] \<Rightarrow> ''Unknown''
      | [token] \<Rightarrow> token
      | _ \<Rightarrow> last (surname_tokens name_cell))"

section \<open>The reports by size\<close>

text \<open>
  \<open>create_triangulation_report_by_size\<close> builds a list of lines and joins it with
  newlines. A line is kept as the values its format string is filled with, since the
  text of a formatted float is outside the model; equal values give equal text.
  \<open>self.triangulation_groups\<close> is passed as the argument \<open>groups\<close>.
\<close>

datatype report_line =
    Text string
  | FilterNote rat
  | SummaryFound nat
  | LargestGroup nat
  | SmallestGroup nat
  | RankLine nat nat
  | LocationLine string int int
  | StrengthLine rat rat
  | FamilyLine string nat
  | MemberLine segment
  | MoreLine int string
  | PureLine string
  | ConsiderLine string
  | MixedLine "string list"

text \<open>
  \<open>if min_cm_filter and min_cm_filter > 0: report.append(...)\<close>: the note is added for a
  number above 0, and for neither \<open>None\<close> nor 0.
\<close>

definition filter_note :: "rat option \<Rightarrow> report_line list" where
  "filter_note min_cm_filter =
     (case min_cm_filter of
        None \<Rightarrow> []
      | Some f \<Rightarrow> if f \<noteq> 0 \<and> f > 0 then [FilterNote f] else [])"

text \<open>\<open>sorted(groups, key=len, reverse=True)\<close>: descending, equal sizes in their given order.\<close>

definition sorted_by_size :: "segment list list \<Rightarrow> segment list list" where
  "sorted_by_size groups = sort_key (\<lambda>g. - int (length g)) groups"

text \<open>
  \<open>family_groups[surname].append(member)\<close> on a \<open>defaultdict(list)\<close>: the keys in the
  order of their first insertion.
\<close>

fun add_to_family :: "string \<Rightarrow> segment \<Rightarrow> (string \<times> segment list) list
    \<Rightarrow> (string \<times> segment list) list" where
  "add_to_family surname member [] = [(surname, [member])]"
| "add_to_family surname member ((key, members) # rest) =
     (if key = surname then (key, members @ [member]) # rest
      else (key, members) # add_to_family surname member rest)"

definition family_groups_of :: "segment list \<Rightarrow> (string \<times> segment list) list" where
  "family_groups_of grp =
     foldl (\<lambda>family_groups member.
              add_to_family (extract_surname (match_name member)) member family_groups)
       [] grp"

definition sorted_families_of :: "segment list \<Rightarrow> (string \<times> segment list) list" where
  "sorted_families_of grp =
     sort_key (\<lambda>(surname, family_members). - int (length family_members))
       (family_groups_of grp)"

text \<open>
  The loop over \<open>enumerate(sorted_members)\<close>: every member for a group of at most 20,
  else the first five and, at the sixth, the count of the rest and \<open>break\<close>.
\<close>

fun member_lines :: "nat \<Rightarrow> string \<Rightarrow> nat \<Rightarrow> (nat \<times> segment) list \<Rightarrow> report_line list" where
  "member_lines group_len surname family_size [] = []"
| "member_lines group_len surname family_size ((i, member) # rest) =
     (if group_len \<le> 20 \<or> i < 5
      then MemberLine member # member_lines group_len surname family_size rest
      else if i = 5 then [MoreLine (int family_size - 5) surname]
      else member_lines group_len surname family_size rest)"

definition family_lines :: "nat \<Rightarrow> string \<times> segment list \<Rightarrow> report_line list" where
  "family_lines group_len family =
     (case family of (surname, family_members) \<Rightarrow>
        FamilyLine surname (length family_members)
        # member_lines group_len surname (length family_members)
            (enumerate 0 (sort_key (\<lambda>m. - centimorgans m) family_members)))"

text \<open>
  The lines of one ranked group that both engines write. \<open>min(...)\<close> over an empty group
  raises ValueError.
\<close>

definition group_head_lines :: "nat \<Rightarrow> segment list \<Rightarrow> py_error + report_line list" where
  "group_head_lines rank grp =
     (case grp of
        [] \<Rightarrow> Inl ValueError
      | first # others \<Rightarrow>
          let min_start = foldl min (start_location first) (map start_location others);
              max_end = foldl max (end_location first) (map end_location others);
              total_cm = sum_list (map centimorgans grp);
              avg_cm = total_cm / of_nat (length grp)
          in Inr ([RankLine rank (length grp),
                   LocationLine (chromosome first) min_start max_end,
                   StrengthLine avg_cm total_cm,
                   Text '''',
                   Text ''PEOPLE IN THIS GROUP (by family name):'']
                  @ concat (map (family_lines (length grp)) (sorted_families_of grp))))"

definition suggestion_lines :: "segment list \<Rightarrow> report_line list" where
  "suggestion_lines grp =
     (let families = map fst (family_groups_of grp)
      in if length families = 1
         then [Text '''', PureLine (hd families), ConsiderLine (hd families)]
         else [Text '''', MixedLine families,
               Text ''    This may represent a common ancestor shared by these families''])"

definition group_lines_optimized :: "nat \<times> segment list \<Rightarrow> py_error + report_line list" where
  "group_lines_optimized ranked =
     (case ranked of (rank, grp) \<Rightarrow>
        (case group_head_lines rank grp of
           Inl e \<Rightarrow> Inl e
         | Inr ls \<Rightarrow>
             Inr (ls @ suggestion_lines grp
                  @ [Text '''', Text ''  MANUAL ASSIGNMENT: ________________________________'',
                     Text ''  (Write the ancestor name you want to assign this group to)'',
                     Text '''', Text (replicate 60 CHR ''-''), Text ''''])))"

definition group_lines_simple :: "nat \<times> segment list \<Rightarrow> py_error + report_line list" where
  "group_lines_simple ranked =
     (case ranked of (rank, grp) \<Rightarrow>
        (case group_head_lines rank grp of
           Inl e \<Rightarrow> Inl e
         | Inr ls \<Rightarrow> Inr (ls @ [Text '''', Text (replicate 60 CHR ''-''), Text ''''])))"

text \<open>The loop over the ranked groups: the lines so far, or the first exception.\<close>

fun ranked_lines ::
  "(nat \<times> segment list \<Rightarrow> py_error + report_line list) \<Rightarrow> (nat \<times> segment list) list
    \<Rightarrow> report_line list \<Rightarrow> py_error + report_line list" where
  "ranked_lines f [] report = Inr report"
| "ranked_lines f (ranked # rest) report =
     (case f ranked of Inl e \<Rightarrow> Inl e | Inr ls \<Rightarrow> ranked_lines f rest (report @ ls))"

definition create_triangulation_report_by_size_optimized ::
  "segment list list \<Rightarrow> rat option \<Rightarrow> py_error + report_line list" where
  "create_triangulation_report_by_size_optimized groups min_cm_filter =
     (if groups = [] then Inr [Text ''No triangulation groups found.'']
      else
        let sorted_groups = sorted_by_size groups
        in ranked_lines group_lines_optimized (enumerate 1 sorted_groups)
             ([Text ''DNA TRIANGULATION GROUPS - SORTED BY SIZE'',
               Text (replicate 60 CHR ''=''),
               Text ''(Largest groups first - these represent your strongest ancestral lines)'']
              @ filter_note min_cm_filter
              @ [Text '''',
                 SummaryFound (length sorted_groups),
                 LargestGroup (length (hd sorted_groups)),
                 SmallestGroup (length (last sorted_groups)),
                 Text '''', Text (replicate 60 CHR ''=''), Text '''']))"

definition create_triangulation_report_by_size_simple ::
  "segment list list \<Rightarrow> rat option \<Rightarrow> py_error + report_line list" where
  "create_triangulation_report_by_size_simple groups min_cm_filter =
     (if groups = [] then Inr [Text ''No triangulation groups found.'']
      else
        let sorted_groups = sorted_by_size groups
        in ranked_lines group_lines_simple (enumerate 1 sorted_groups)
             ([Text ''SIMPLE DNA TRIANGULATION GROUPS - SORTED BY SIZE'',
               Text (replicate 60 CHR ''=''),
               Text ''(Largest groups first - using simple overlap detection)'']
              @ filter_note min_cm_filter
              @ [Text '''', SummaryFound (length sorted_groups)]
              @ (if sorted_groups \<noteq> []
                 then [LargestGroup (length (hd sorted_groups)),
                       SmallestGroup (length (last sorted_groups))]
                 else [])
              @ [Text '''', Text (replicate 60 CHR ''=''), Text '''']))"

section \<open>The strict verification pass (optimized\_triangulation.py)\<close>

text \<open>
  Lines 164 to 177 of \<open>_verify_triangulation_group\<close>, the branch for at most five
  segments: one pass over \<open>segments[1:]\<close>, in which a candidate is kept if it overlaps
  some segment kept so far.
\<close>

fun verify_small_loop :: "int \<Rightarrow> segment list \<Rightarrow> segment list \<Rightarrow> segment list" where
  "verify_small_loop T [] valid_segments = valid_segments"
| "verify_small_loop T (candidate # rest) valid_segments =
     (if list_ex (\<lambda>valid_seg. T \<le> overlap_bp candidate valid_seg) valid_segments
      then verify_small_loop T rest (valid_segments @ [candidate])
      else verify_small_loop T rest valid_segments)"

text \<open>
  Lines 192 to 204 of \<open>_find_connected_components\<close>: \<open>adjacency[node]\<close> after the two
  nested loops, as the ascending list of its members. The pair \<open>(i, j)\<close> with \<open>i < j\<close>
  is tested once, as \<open>overlap(segments[i], segments[j])\<close>, and entered in both
  directions.
\<close>

definition adjacency :: "segment list \<Rightarrow> int \<Rightarrow> nat \<Rightarrow> nat list" where
  "adjacency segments T node =
     filter (\<lambda>other.
               (node < other \<and> T \<le> overlap_bp (segments ! node) (segments ! other))
               \<or> (other < node \<and> T \<le> overlap_bp (segments ! other) (segments ! node)))
       [0..<length segments]"

text \<open>
  Lines 218 to 229, the loop \<open>while stack\<close>. The stack is a list with its top first, so
  the neighbours appended in the order \<open>adj node\<close> yields them are put in front in
  reverse; \<open>visited\<close> is kept as a list. A node outside \<open>range(len(segments))\<close> would
  raise at \<open>segments[node]\<close>.
\<close>

function dfs_loop ::
  "segment list \<Rightarrow> (nat \<Rightarrow> nat list) \<Rightarrow> nat list \<Rightarrow> nat list \<Rightarrow> segment list
    \<Rightarrow> py_error + nat list \<times> segment list" where
  "dfs_loop segments adj [] visited component = Inr (visited, component)"
| "dfs_loop segments adj (node # stack) visited component =
     (if node \<in> set visited then dfs_loop segments adj stack visited component
      else if length segments \<le> node then Inl IndexError
      else dfs_loop segments adj
             (rev (filter (\<lambda>neighbor. neighbor \<notin> set (node # visited)) (adj node)) @ stack)
             (node # visited) (component @ [segments ! node]))"
  by pat_completeness auto

lemma unvisited_decreases:
  assumes "node < (n::nat)" and "node \<notin> set visited"
  shows "card ({..<n} - set (node # visited)) < card ({..<n} - set visited)"
proof -
  have "{..<n} - set (node # visited) \<subset> {..<n} - set visited"
    using assms by auto
  moreover have "finite ({..<n} - set visited)" by simp
  ultimately show ?thesis by (rule psubset_card_mono [rotated])
qed

termination dfs_loop
  by (relation "measures [\<lambda>(segments, adj, stack, visited, component).
                            card ({..<length segments} - set visited),
                          \<lambda>(segments, adj, stack, visited, component). length stack]")
     (simp_all add: unvisited_decreases del: set_simps)

text \<open>
  Lines 210 to 233: the loop over the start nodes, with the state
  \<open>(visited, largest_component)\<close>.
\<close>

fun component_loop ::
  "segment list \<Rightarrow> (nat \<Rightarrow> nat list) \<Rightarrow> nat list \<Rightarrow> nat list \<Rightarrow> segment list
    \<Rightarrow> py_error + segment list" where
  "component_loop segments adj [] visited largest_component = Inr largest_component"
| "component_loop segments adj (start_node # rest) visited largest_component =
     (if start_node \<in> set visited
      then component_loop segments adj rest visited largest_component
      else case dfs_loop segments adj [start_node] visited [] of
             Inl e \<Rightarrow> Inl e
           | Inr (visited', component) \<Rightarrow>
               component_loop segments adj rest visited'
                 (if length largest_component < length component then component
                  else largest_component))"

text \<open>
  \<open>iter_order\<close> stands for the order in which Python iterates over a set of integers,
  which the language leaves open: it maps the ascending list of the members to the list
  in the order of iteration.
\<close>

definition find_connected_components ::
  "(nat list \<Rightarrow> nat list) \<Rightarrow> segment list \<Rightarrow> int \<Rightarrow> py_error + segment list" where
  "find_connected_components iter_order segments min_overlap_bp =
     (if length segments < 2 then Inr segments
      else component_loop segments (\<lambda>node. iter_order (adjacency segments min_overlap_bp node))
             [0..<length segments] [] [])"

definition verify_triangulation_group ::
  "(nat list \<Rightarrow> nat list) \<Rightarrow> segment list \<Rightarrow> int \<Rightarrow> py_error + segment list" where
  "verify_triangulation_group iter_order segments min_overlap_bp =
     (if length segments < 2 then Inr segments
      else if length segments \<le> 5
      then Inr (verify_small_loop min_overlap_bp (tl segments) [hd segments])
      else find_connected_components iter_order segments min_overlap_bp)"

section \<open>Notions used to state the properties\<close>

text \<open>What the scan of the simple engine adds to the star of the seed at position \<open>i\<close>.\<close>

definition simple_member :: "int \<Rightarrow> nat \<Rightarrow> segment \<Rightarrow> nat list \<Rightarrow> nat \<times> segment \<Rightarrow> bool" where
  "simple_member T i s used = (\<lambda>(j, m). j \<noteq> i \<and> j \<notin> set used \<and> T \<le> overlap_length s m)"

text \<open>
  A group is a star within threshold \<open>T\<close>: it has a seed (its first member), every
  other member overlaps the seed by at least \<open>T\<close>, and so does the seed itself when
  the group has a second member.
\<close>

definition star_within :: "int \<Rightarrow> segment list \<Rightarrow> bool" where
  "star_within T g \<longleftrightarrow>
     g \<noteq> [] \<and> (\<forall>m\<in>set (tl g). T \<le> overlap_bp (hd g) m)
     \<and> (2 \<le> length g \<longrightarrow> T \<le> overlap_bp (hd g) (hd g))"

text \<open>Rows for the examples: a named row with 10 cM and 1000 SNPs.\<close>

definition seg :: "int \<Rightarrow> string \<Rightarrow> string \<Rightarrow> int \<Rightarrow> int \<Rightarrow> segment" where
  "seg i name chrom s e =
     \<lparr>row_index = i, match_name = Some name, chromosome = chrom, start_location = s,
      end_location = e, centimorgans = 10, matching_snps = 1000\<rparr>"

text \<open>
  Three rows of chromosome 1: A and B overlap by 5,000,000, B and C by 5,500,000, A and C
  by 500,000.
\<close>

definition example_rows :: "segment list" where
  "example_rows =
     [seg 0 ''A'' ''1'' 0 10000000, seg 1 ''B'' ''1'' 5000000 15000000,
      seg 2 ''C'' ''1'' 9500000 20000000]"

text \<open>A row whose name cell holds no string, and rows of two chromosomes with such a row
  on chromosome 1.\<close>

definition nameless :: "int \<Rightarrow> string \<Rightarrow> int \<Rightarrow> int \<Rightarrow> segment" where
  "nameless i chrom s e =
     \<lparr>row_index = i, match_name = None, chromosome = chrom, start_location = s,
      end_location = e, centimorgans = 10, matching_snps = 1000\<rparr>"

definition faulty_rows :: "segment list" where
  "faulty_rows =
     [nameless 0 ''1'' 0 10000000, seg 1 ''B'' ''1'' 5000000 15000000,
      seg 2 ''C'' ''2'' 0 10000000, seg 3 ''D'' ''2'' 5000000 15000000]"



text \<open>Three rows of chromosome 1 given out of start order: X, then Y, which starts
  before X, then Z.\<close>

definition unsorted_rows :: "segment list" where
  "unsorted_rows =
     [seg 0 ''X'' ''1'' 10000000 30000000, seg 1 ''Y'' ''1'' 0 12000000,
      seg 2 ''Z'' ''1'' 25000000 40000000]"

text \<open>The one line of a report that shows the filter.\<close>

fun is_filter_note :: "report_line \<Rightarrow> bool" where
  "is_filter_note (FilterNote f) = True"
| "is_filter_note _ = False"

definition without_filter_note :: "py_error + report_line list \<Rightarrow> py_error + report_line list" where
  "without_filter_note report =
     (case report of Inl e \<Rightarrow> Inl e | Inr ls \<Rightarrow> Inr (filter (\<lambda>l. \<not> is_filter_note l) ls))"

text \<open>A report with the note for \<open>min_cm_filter\<close> put after its first three lines.\<close>

definition with_filter_note ::
  "rat option \<Rightarrow> py_error + report_line list \<Rightarrow> py_error + report_line list" where
  "with_filter_note min_cm_filter report =
     (case report of
        Inl e \<Rightarrow> Inl e
      | Inr ls \<Rightarrow> Inr (take 3 ls @ filter_note min_cm_filter @ drop 3 ls))"

text \<open>
  The pairwise-overlap graph over a candidate list: its nodes are the positions of the
  list, with an edge between two positions whose segments overlap by at least \<open>T\<close>.
  The connected component of a position is what a path of edges reaches from it.
\<close>

definition overlap_edges :: "segment list \<Rightarrow> int \<Rightarrow> (nat \<times> nat) set" where
  "overlap_edges segments T =
     {(i, j). i < length segments \<and> j < length segments \<and> i \<noteq> j
        \<and> T \<le> overlap_bp (segments ! i) (segments ! j)}"

definition component_of :: "segment list \<Rightarrow> int \<Rightarrow> nat \<Rightarrow> nat set" where
  "component_of segments T v = (overlap_edges segments T)\<^sup>* `` {v}"

text \<open>
  The state of the loop over the start nodes, for a graph \<open>E\<close>: no visited node has a
  component with more members than \<open>largest\<close>, which is empty or lists the segments of
  one whole component, each node once.
\<close>

definition largest_so_far ::
  "segment list \<Rightarrow> (nat \<times> nat) set \<Rightarrow> nat list \<Rightarrow> segment list \<Rightarrow> bool" where
  "largest_so_far segs E visited largest \<longleftrightarrow>
     (\<forall>v\<in>set visited. card (E\<^sup>* `` {v}) \<le> length largest)
     \<and> (largest = [] \<or>
          (\<exists>nodes v. largest = map ((!) segs) nodes \<and> distinct nodes \<and> v < length segs
              \<and> set nodes = E\<^sup>* `` {v}))"

text \<open>
  Candidate lists for the strict pass. In \<open>lone_first\<close> the first segment overlaps
  nothing and the other two overlap each other; in \<open>late_link\<close> the second segment
  overlaps only the third, which overlaps the first; \<open>six_segments\<close> has the components
  A and E, then B, C and D, then F.
\<close>

definition lone_first :: "segment list" where
  "lone_first = [seg 0 ''A'' ''1'' 0 10, seg 1 ''B'' ''1'' 20 30, seg 2 ''C'' ''1'' 25 40]"

definition late_link :: "segment list" where
  "late_link = [seg 0 ''A'' ''1'' 0 10, seg 1 ''B'' ''1'' 20 30, seg 2 ''C'' ''1'' 5 25]"

definition six_segments :: "segment list" where
  "six_segments =
     [seg 0 ''A'' ''1'' 0 10, seg 1 ''B'' ''1'' 20 30, seg 2 ''C'' ''1'' 25 40,
      seg 3 ''D'' ''1'' 35 50, seg 4 ''E'' ''1'' 5 12, seg 5 ''F'' ''1'' 100 110]"


text \<open>A chain of three candidates: A overlaps C, C overlaps B, A and B do not overlap.\<close>

definition chain_link :: "segment list" where
  "chain_link = [seg 0 ''A'' ''1'' 0 10, seg 2 ''C'' ''1'' 5 25, seg 1 ''B'' ''1'' 20 30]"

section \<open>Properties of the optimized engine\<close>

lemma collect_optimized_labels:
  "ci = map row_index cg \<Longrightarrow>
   snd (collect_optimized T i s scan (cg, ci)) = map row_index (fst (collect_optimized T i s scan (cg, ci)))"
proof (induction scan arbitrary: cg ci)
  case Nil
  then show ?case by simp
next
  case (Cons p scan)
  obtain j s2 where p: "p = (j, s2)" by (cases p)
  have "ci @ [row_index s2] = map row_index (cg @ [s2])" using Cons.prems by simp
  from Cons.IH [OF this] Cons.IH [OF Cons.prems] p show ?case by simp
qed

lemma collect_optimized_distinct:
  "ci = map row_index cg \<Longrightarrow> distinct ci \<Longrightarrow>
   distinct (map row_index (fst (collect_optimized T i s scan (cg, ci))))"
proof (induction scan arbitrary: cg ci)
  case Nil
  then show ?case by simp
next
  case (Cons p scan)
  obtain j s2 where p: "p = (j, s2)" by (cases p)
  show ?case
  proof (cases "j = i \<or> row_index s2 \<in> set ci")
    case True
    with Cons.IH [OF Cons.prems] p show ?thesis by simp
  next
    case False
    have a: "ci @ [row_index s2] = map row_index (cg @ [s2])" using Cons.prems by simp
    have b: "distinct (ci @ [row_index s2])" using Cons.prems False by simp
    from Cons.IH [OF a b] Cons.IH [OF Cons.prems] p False show ?thesis by simp
  qed
qed

lemma collect_optimized_extends:
  "\<exists>extra. fst (collect_optimized T i s scan (cg, ci)) = cg @ extra
      \<and> (\<forall>m\<in>set extra. T \<le> overlap_bp s m) \<and> set extra \<subseteq> snd ` set scan"
proof (induction scan arbitrary: cg ci)
  case Nil
  then show ?case by simp
next
  case (Cons p scan)
  obtain j s2 where p: "p = (j, s2)" by (cases p)
  show ?case
  proof (cases "j = i \<or> row_index s2 \<in> set ci")
    case True
    with Cons.IH [of cg ci] p show ?thesis by auto
  next
    case skip: False
    show ?thesis
    proof (cases "T \<le> overlap_bp s s2")
      case True
      from Cons.IH [of "cg @ [s2]" "ci @ [row_index s2]"]
      obtain extra where e: "fst (collect_optimized T i s scan (cg @ [s2], ci @ [row_index s2])) = (cg @ [s2]) @ extra"
        "\<forall>m\<in>set extra. T \<le> overlap_bp s m" "set extra \<subseteq> snd ` set scan" by blast
      have "fst (collect_optimized T i s (p # scan) (cg, ci)) = cg @ (s2 # extra)"
        using skip True p e(1) by simp
      moreover have "\<forall>m\<in>set (s2 # extra). T \<le> overlap_bp s m" using True e(2) by simp
      moreover have "set (s2 # extra) \<subseteq> snd ` set (p # scan)" using e(3) p by auto
      ultimately show ?thesis by blast
    next
      case False
      with Cons.IH [of cg ci] p skip show ?thesis by auto
    qed
  qed
qed

lemma overlap_bp_self_ge: "overlap_bp a b \<le> overlap_bp a a"
  by (simp add: overlap_bp_def overlap_length_def)

lemma overlap_length_self_ge: "overlap_length a b \<le> overlap_bp a a"
  by (simp add: overlap_bp_def overlap_length_def)

text \<open>Every group the seed loop emits is a star some seed collected.\<close>

lemma group_loop_optimized_all:
  assumes "group_loop_optimized dbg T k segs pending groups processed = Inr gs"
    and "\<forall>g\<in>set groups. P g"
    and "\<And>i s. (i, s) \<in> set pending \<Longrightarrow>
           k \<le> int (length (fst (collect_optimized T i s (enumerate 0 segs) ([s], [row_index s])))) \<Longrightarrow>
           P (fst (collect_optimized T i s (enumerate 0 segs) ([s], [row_index s])))"
  shows "\<forall>g\<in>set gs. P g"
  using assms
proof (induction pending arbitrary: groups processed)
  case Nil
  then show ?case by simp
next
  case (Cons p pending)
  obtain i s where p: "p = (i, s)" by (cases p)
  let ?cg = "fst (collect_optimized T i s (enumerate 0 segs) ([s], [row_index s]))"
  have step: "\<And>i s. (i, s) \<in> set pending \<Longrightarrow>
           k \<le> int (length (fst (collect_optimized T i s (enumerate 0 segs) ([s], [row_index s])))) \<Longrightarrow>
           P (fst (collect_optimized T i s (enumerate 0 segs) ([s], [row_index s])))"
    using Cons.prems(3) by simp
  show ?case
  proof (cases "row_index s \<in> set processed")
    case True
    with Cons.prems(1) p have "group_loop_optimized dbg T k segs pending groups processed = Inr gs"
      by simp
    from Cons.IH [OF this Cons.prems(2) step] show ?thesis by simp
  next
    case fresh: False
    show ?thesis
    proof (cases "k \<le> int (length ?cg)")
      case True
      with Cons.prems(1) p fresh
      have run: "group_loop_optimized dbg T k segs pending (groups @ [?cg])
              (processed @ map row_index ?cg) = Inr gs"
        by (simp add: Let_def split: if_splits sum.splits)
      have "P ?cg" using Cons.prems(3) [of i s] p True by simp
      with Cons.prems(2) have "\<forall>g\<in>set (groups @ [?cg]). P g" by simp
      from Cons.IH [OF run this step] show ?thesis by simp
    next
      case False
      with Cons.prems(1) p fresh
      have "group_loop_optimized dbg T k segs pending groups processed = Inr gs"
        by (simp add: Let_def split: if_splits)
      from Cons.IH [OF this Cons.prems(2) step] show ?thesis by simp
    qed
  qed
qed

lemma pool_map_Inr:
  "pool_map f xs = Inr ys \<Longrightarrow> list_all2 (\<lambda>x y. f x = Inr y) xs ys"
  by (induction xs arbitrary: ys) (auto split: sum.splits)

lemma pool_map_Inr_member:
  "pool_map f xs = Inr ys \<Longrightarrow> y \<in> set ys \<Longrightarrow> \<exists>x\<in>set xs. f x = Inr y"
  by (induction xs arbitrary: ys) (auto split: sum.splits)

lemma pool_map_Inl:
  "pool_map f xs = Inl e \<Longrightarrow> \<exists>x\<in>set xs. f x = Inl e"
  by (induction xs) (auto split: sum.splits)

lemma pool_map_all_Inr:
  "\<forall>x\<in>set xs. \<exists>y. f x = Inr y \<Longrightarrow> \<exists>ys. pool_map f xs = Inr ys"
  by (induction xs) (auto split: sum.splits)

lemma process_chromosome_optimized_all:
  assumes "process_chromosome_optimized (c, chr_data, T, k, debug) = Inr gs"
    and "\<And>i s scan. k \<le> int (length (fst (collect_optimized T i s scan ([s], [row_index s])))) \<Longrightarrow>
           P (fst (collect_optimized T i s scan ([s], [row_index s])))"
  shows "\<forall>g\<in>set gs. P g"
proof -
  from assms(1) have "group_loop_optimized (debug \<and> c = ''1'') T k (sorted_segments chr_data)
      (enumerate 0 (sorted_segments chr_data)) [] [] = Inr gs"
    by (simp add: Let_def)
  from group_loop_optimized_all [OF this, of P] assms(2) show ?thesis by simp
qed

lemma detect_optimized_all:
  assumes "detect_triangulation_groups_optimized cpus data T k w debug = Inr gs"
    and "\<And>i s scan. k \<le> int (length (fst (collect_optimized T i s scan ([s], [row_index s])))) \<Longrightarrow>
           P (fst (collect_optimized T i s scan ([s], [row_index s])))"
  shows "\<forall>g\<in>set gs. P g"
proof (cases "args_list_of data T k debug = []")
  case True
  with assms(1) show ?thesis by (simp add: detect_triangulation_groups_optimized_def)
next
  case False
  with assms(1) obtain results where
    r: "pool_map process_chromosome_optimized (args_list_of data T k debug) = Inr results"
    and gs: "gs = concat results"
    by (auto simp: detect_triangulation_groups_optimized_def Let_def split: if_splits sum.splits)
  have "\<forall>g\<in>set res. P g" if "res \<in> set results" for res
  proof -
    from pool_map_Inr_member [OF r that] obtain a where
      a: "a \<in> set (args_list_of data T k debug)" "process_chromosome_optimized a = Inr res"
      by blast
    from a(1) obtain c chr_data where "a = (c, chr_data, T, k, debug)"
      by (auto simp: args_list_of_def)
    with a(2) process_chromosome_optimized_all [of c chr_data T k debug res P] assms(2)
    show ?thesis by blast
  qed
  with gs show ?thesis by auto
qed

section \<open>Properties of the simple and the original engine\<close>

lemma collect_simple_filter:
  "collect_simple T i s used scan (cg, ci) =
     (cg @ filter (simple_member T i s used) scan,
      ci @ map fst (filter (simple_member T i s used) scan))"
proof (induction scan arbitrary: cg ci)
  case Nil
  then show ?case by simp
next
  case (Cons p scan)
  obtain j m where p: "p = (j, m)" by (cases p)
  show ?case
  proof (cases "simple_member T i s used (j, m)")
    case True
    then have "collect_simple T i s used (p # scan) (cg, ci) =
        collect_simple T i s used scan (cg @ [(j, m)], ci @ [j])"
      using p by (simp add: simple_member_def)
    with True p Cons.IH [of "cg @ [(j, m)]" "ci @ [j]"] show ?thesis by simp
  next
    case False
    then have "collect_simple T i s used (p # scan) (cg, ci) =
        collect_simple T i s used scan (cg, ci)"
      using p by (auto simp: simple_member_def)
    with False p Cons.IH [of cg ci] show ?thesis by simp
  qed
qed

lemma distinct_fst_enumerate: "distinct (map fst (enumerate n xs))"
  by (simp add: enumerate_eq_zip)

lemma distinct_fst_take_enumerate: "distinct (map fst (take m (enumerate n xs)))"
  using distinct_fst_enumerate [of n xs] by (simp add: distinct_take take_map [symmetric])

lemma collect_simple_distinct:
  assumes "distinct (map fst scan)"
  shows "distinct (map fst (fst (collect_simple T i s used scan ([(i, s)], [i]))))"
proof -
  have "distinct (map fst (filter (simple_member T i s used) scan))"
    using assms by (simp add: distinct_map_filter)
  moreover have "i \<notin> fst ` set (filter (simple_member T i s used) scan)"
    by (auto simp: simple_member_def)
  ultimately show ?thesis by (simp add: collect_simple_filter)
qed

lemma group_loop_simple_all:
  assumes "\<forall>g\<in>set groups. P g"
    and "\<And>i s used. (i, s) \<in> set pending \<Longrightarrow> i \<notin> set used \<Longrightarrow>
           k \<le> int (length (fst (collect_simple T i s used (enumerate 0 segs) ([(i, s)], [i])))) \<Longrightarrow>
           P (fst (collect_simple T i s used (enumerate 0 segs) ([(i, s)], [i])))"
  shows "\<forall>g\<in>set (group_loop_simple T k segs pending groups used0). P g"
  using assms
proof (induction pending arbitrary: groups used0)
  case Nil
  then show ?case by simp
next
  case (Cons p pending)
  obtain i s where p: "p = (i, s)" by (cases p)
  let ?st = "collect_simple T i s used0 (enumerate 0 segs) ([(i, s)], [i])"
  have step: "\<And>i s used. (i, s) \<in> set pending \<Longrightarrow> i \<notin> set used \<Longrightarrow>
           k \<le> int (length (fst (collect_simple T i s used (enumerate 0 segs) ([(i, s)], [i])))) \<Longrightarrow>
           P (fst (collect_simple T i s used (enumerate 0 segs) ([(i, s)], [i])))"
    using Cons.prems(2) by simp
  show ?case
  proof (cases "i \<notin> set used0 \<and> k \<le> int (length (fst ?st))")
    case True
    then have "P (fst ?st)" using Cons.prems(2) [of i s used0] p by simp
    with Cons.prems(1) have "\<forall>g\<in>set (groups @ [fst ?st]). P g" by simp
    from Cons.IH [OF this step, of "used0 @ snd ?st"] True p show ?thesis
      by (simp add: Let_def)
  next
    case False
    from Cons.IH [OF Cons.prems(1) step, of used0] False p show ?thesis
      by (auto simp: Let_def)
  qed
qed

text \<open>The simple engine keeps its groups apart: no position is in two of them.\<close>

lemma group_loop_simple_disjoint:
  assumes "distinct (concat (map (map fst) groups))"
    and "set used0 = \<Union> (set ` set (map (map fst) groups))"
  shows "distinct (concat (map (map fst) (group_loop_simple T k segs pending groups used0)))"
  using assms
proof (induction pending arbitrary: groups used0)
  case Nil
  then show ?case by simp
next
  case (Cons p pending)
  obtain i s where p: "p = (i, s)" by (cases p)
  let ?st = "collect_simple T i s used0 (enumerate 0 segs) ([(i, s)], [i])"
  show ?case
  proof (cases "i \<notin> set used0 \<and> k \<le> int (length (fst ?st))")
    case True
    have d: "distinct (map fst (fst ?st))"
      by (rule collect_simple_distinct) (rule distinct_fst_enumerate)
    have sn: "snd ?st = map fst (fst ?st)" by (simp add: collect_simple_filter)
    have fresh: "set (map fst (fst ?st)) \<inter> set used0 = {}"
      using True by (auto simp: collect_simple_filter simple_member_def)
    have a: "distinct (concat (map (map fst) (groups @ [fst ?st])))"
      using Cons.prems d fresh by auto
    have b: "set (used0 @ snd ?st) = \<Union> (set ` set (map (map fst) (groups @ [fst ?st])))"
      using Cons.prems(2) sn by auto
    from Cons.IH [OF a b] True p show ?thesis by (simp add: Let_def)
  next
    case False
    from Cons.IH [OF Cons.prems] False p show ?thesis by (auto simp: Let_def)
  qed
qed

lemma simple_positions_disjoint:
  "distinct (concat (map (map fst) (find_overlapping_positions_simple segs T k)))"
  unfolding find_overlapping_positions_simple_def
  by (rule group_loop_simple_disjoint) simp_all

lemma collect_original_distinct:
  "distinct (map row_index cg) \<Longrightarrow> distinct (map row_index (collect_original T row1 rows cg))"
  by (induction rows arbitrary: cg) auto

lemma group_loop_original_all:
  assumes "\<forall>g\<in>set groups. P g"
    and "\<And>row1. row1 \<in> set pending \<Longrightarrow> P (collect_original T row1 chr_data [row1])"
  shows "\<forall>g\<in>set (group_loop_original T k chr_data pending groups). P g"
  using assms
proof (induction pending arbitrary: groups)
  case Nil
  then show ?case by simp
next
  case (Cons row1 pending)
  let ?cg = "collect_original T row1 chr_data [row1]"
  have step: "\<And>r. r \<in> set pending \<Longrightarrow> P (collect_original T r chr_data [r])"
    using Cons.prems(2) by simp
  have "P ?cg" using Cons.prems(2) by simp
  with Cons.prems(1) have ext: "\<forall>g\<in>set (groups @ [?cg]). P g" by simp
  from Cons.IH [OF Cons.prems(1) step] Cons.IH [OF ext step]
  show ?case by (simp add: Let_def)
qed

lemma detect_original_all:
  assumes "\<And>row1 rows. P (collect_original T row1 rows [row1])"
  shows "\<forall>g\<in>set (detect_triangulation_groups sort_values data T k). P g"
proof -
  have "\<forall>g\<in>set (group_loop_original T k rows rows []). P g" for rows
    by (rule group_loop_original_all) (simp_all add: assms)
  then show ?thesis
    by (auto simp: detect_triangulation_groups_def Let_def)
qed

section \<open>Evaluating the engines on concrete rows\<close>

lemmas run_simps =
  detect_triangulation_groups_optimized_def args_list_of_def groupby_chromosome_def
  sorted_segments_def enumerate_eq_zip overlap_bp_def overlap_length_def seg_def upt_rec
  detect_triangulation_simple_def find_overlapping_groups_simple_def
  find_overlapping_positions_simple_def detect_triangulation_groups_def unique_values_def

lemma example_rows_optimized:
  "detect_triangulation_groups_optimized 4 example_rows 1000000 2 None True =
     Inr [[seg 0 ''A'' ''1'' 0 10000000, seg 1 ''B'' ''1'' 5000000 15000000],
          [seg 2 ''C'' ''1'' 9500000 20000000, seg 1 ''B'' ''1'' 5000000 15000000]]"
  by (simp add: run_simps example_rows_def)

lemma example_rows_simple:
  "find_overlapping_groups_simple example_rows 1000000 2 =
     [[seg 0 ''A'' ''1'' 0 10000000, seg 1 ''B'' ''1'' 5000000 15000000]]"
  by (simp add: run_simps example_rows_def)

lemma example_rows_original:
  "detect_triangulation_groups (sort_key start_location) example_rows 1000000 2 =
     [[seg 0 ''A'' ''1'' 0 10000000, seg 1 ''B'' ''1'' 5000000 15000000],
      [seg 1 ''B'' ''1'' 5000000 15000000, seg 2 ''C'' ''1'' 9500000 20000000]]"
  by code_simp

section \<open>Stars and members\<close>

lemma in_enumerate_nth:
  "(j, m) \<in> set (enumerate 0 xs) \<Longrightarrow> j < length xs \<and> m = xs ! j"
  by (auto simp: in_set_enumerate_eq)

lemma simple_positions_within:
  "\<forall>g\<in>set (find_overlapping_positions_simple segs T k). set g \<subseteq> set (enumerate 0 segs)"
  unfolding find_overlapping_positions_simple_def
  by (rule group_loop_simple_all) (auto simp: collect_simple_filter)

lemma simple_positions_distinct:
  "\<forall>g\<in>set (find_overlapping_positions_simple segs T k). distinct (map fst g)"
  unfolding find_overlapping_positions_simple_def
  by (rule group_loop_simple_all) (simp_all add: collect_simple_distinct distinct_fst_enumerate)

lemma rows_of_positions:
  "set g \<subseteq> set (enumerate 0 segs) \<Longrightarrow> map snd g = map ((!) segs) (map fst g)"
  by (induction g) (auto dest: in_enumerate_nth)

lemma star_within_optimized:
  "star_within T (fst (collect_optimized T i s scan ([s], [row_index s])))"
proof -
  obtain extra where e: "fst (collect_optimized T i s scan ([s], [row_index s])) = [s] @ extra"
    "\<forall>m\<in>set extra. T \<le> overlap_bp s m"
    using collect_optimized_extends [of T i s scan "[s]" "[row_index s]"] by blast
  have "T \<le> overlap_bp s s" if "extra \<noteq> []"
  proof -
    from that obtain m where "m \<in> set extra" by (cases extra) auto
    with e(2) have "T \<le> overlap_bp s m" by simp
    with overlap_bp_self_ge [of s m] show ?thesis by simp
  qed
  with e show ?thesis by (cases extra) (auto simp: star_within_def)
qed

lemma star_within_simple:
  "star_within T (map snd (fst (collect_simple T i s used scan ([(i, s)], [i]))))"
proof -
  let ?extra = "filter (simple_member T i s used) scan"
  have m: "\<forall>m\<in>set (map snd ?extra). T \<le> overlap_bp s m"
    by (auto simp: simple_member_def overlap_bp_def)
  have "T \<le> overlap_bp s s" if "?extra \<noteq> []"
  proof -
    from that obtain p where "p \<in> set ?extra" by (cases ?extra) auto
    then have "T \<le> overlap_length s (snd p)" by (auto simp: simple_member_def)
    with overlap_length_self_ge [of s "snd p"] show ?thesis by simp
  qed
  with m show ?thesis
    by (cases ?extra) (auto simp: star_within_def collect_simple_filter)
qed

lemma simple_groups_star:
  "\<forall>g\<in>set (find_overlapping_groups_simple segs T k). star_within T g"
proof -
  have "\<forall>g\<in>set (group_loop_simple T k segs (enumerate 0 segs) [] []). star_within T (map snd g)"
    by (rule group_loop_simple_all) (simp_all add: star_within_simple)
  then show ?thesis
    by (simp add: find_overlapping_groups_simple_def find_overlapping_positions_simple_def)
qed

lemma detect_simple_star:
  "\<forall>g\<in>set (detect_triangulation_simple data T k). star_within T g"
  using simple_groups_star by (auto simp: detect_triangulation_simple_def)

lemma detect_simple_all:
  assumes "\<And>segs. \<forall>g\<in>set (find_overlapping_groups_simple segs T k). P g"
  shows "\<forall>g\<in>set (detect_triangulation_simple data T k). P g"
  using assms by (auto simp: detect_triangulation_simple_def)

lemma simple_groups_min_size:
  "\<forall>g\<in>set (find_overlapping_groups_simple segs T k). k \<le> int (length g)"
proof -
  have "\<forall>g\<in>set (group_loop_simple T k segs (enumerate 0 segs) [] []). k \<le> int (length (map snd g))"
    by (rule group_loop_simple_all) simp_all
  then show ?thesis
    by (simp add: find_overlapping_groups_simple_def find_overlapping_positions_simple_def)
qed

lemma star_within_all_members:
  "star_within T g \<and> k \<le> int (length g) \<Longrightarrow> 2 \<le> k \<Longrightarrow> m \<in> set g \<Longrightarrow>
     T \<le> overlap_bp (hd g) m"
  by (cases g) (auto simp: star_within_def)

lemma star_example:
  "detect_triangulation_groups_optimized 4
     [seg 0 ''A'' ''1'' 0 30, seg 1 ''B'' ''1'' 0 10, seg 2 ''C'' ''1'' 20 30] 5 2 None False
   = Inr [[seg 0 ''A'' ''1'' 0 30, seg 1 ''B'' ''1'' 0 10, seg 2 ''C'' ''1'' 20 30]]"
  by (simp add: run_simps)

lemma example_rows_detect_simple:
  "detect_triangulation_simple example_rows 1000000 2 =
     [[seg 0 ''A'' ''1'' 0 10000000, seg 1 ''B'' ''1'' 5000000 15000000]]"
  by (simp add: run_simps example_rows_def)

section \<open>The scheduler\<close>

lemma workers_irrelevant:
  assumes "\<forall>n. w = Some n \<longrightarrow> 1 \<le> n"
  shows "detect_triangulation_groups_optimized cpus data T k w debug =
     (case pool_map process_chromosome_optimized (args_list_of data T k debug) of
        Inl e \<Rightarrow> Inl e | Inr results \<Rightarrow> Inr (concat results))"
proof -
  have "\<not> (case w of None \<Rightarrow> max 1 (int cpus - 1) | Some n \<Rightarrow> n) < 1"
    using assms by (cases w) auto
  then show ?thesis
    by (cases "args_list_of data T k debug") (simp_all add: detect_triangulation_groups_optimized_def Let_def)
qed

lemma faulty_rows_run:
  "detect_triangulation_groups_optimized 4 faulty_rows 1000000 2 None True = Inl AttributeError"
  by (simp add: run_simps faulty_rows_def nameless_def)

lemma faulty_rows_chr2:
  "process_chromosome_optimized (''2'', filter (\<lambda>s. chromosome s = ''2'') faulty_rows, 1000000, 2, True)
     = Inr [[seg 2 ''C'' ''2'' 0 10000000, seg 3 ''D'' ''2'' 5000000 15000000]]"
  by (simp add: run_simps faulty_rows_def nameless_def)

lemma pool_map_failure:
  "a \<in> set xs \<Longrightarrow> f a = Inl e \<Longrightarrow> \<exists>e'. pool_map f xs = Inl e'"
  by (induction xs) (auto split: sum.splits)

lemma detect_failure:
  assumes "a \<in> set (args_list_of data T k debug)"
    and "process_chromosome_optimized a = Inl e"
  shows "\<exists>e'. detect_triangulation_groups_optimized cpus data T k w debug = Inl e'"
proof -
  from assms(1) have ne: "args_list_of data T k debug \<noteq> []" by auto
  from pool_map_failure [of a "args_list_of data T k debug" process_chromosome_optimized e] assms
  obtain e' where
    "pool_map process_chromosome_optimized (args_list_of data T k debug) = Inl e'" by blast
  with ne show ?thesis
    by (simp add: detect_triangulation_groups_optimized_def Let_def)
qed

lemma pool_map_Inr_all:
  "pool_map f xs = Inr ys \<Longrightarrow> \<forall>x\<in>set xs. \<exists>y. f x = Inr y"
  by (induction xs arbitrary: ys) (auto split: sum.splits)

lemma detect_success:
  assumes "detect_triangulation_groups_optimized cpus data T k w debug = Inr groups"
  shows "\<forall>b\<in>set (args_list_of data T k debug). \<exists>gs. process_chromosome_optimized b = Inr gs"
proof (cases "args_list_of data T k debug = []")
  case True
  then show ?thesis by simp
next
  case False
  with assms obtain results where
    "pool_map process_chromosome_optimized (args_list_of data T k debug) = Inr results"
    by (auto simp: detect_triangulation_groups_optimized_def Let_def split: if_splits sum.splits)
  then show ?thesis by (rule pool_map_Inr_all)
qed

lemma faulty_rows_args:
  "(''1'', filter (\<lambda>s. chromosome s = ''1'') faulty_rows, 1000000, 2, True)
     \<in> set (args_list_of faulty_rows 1000000 2 True)"
  by (simp add: run_simps faulty_rows_def nameless_def)

lemma example_rows_args:
  "args_list_of example_rows 1000000 2 True = [(''1'', example_rows, 1000000, 2, True)]"
  by (simp add: run_simps example_rows_def)

lemma faulty_rows_chr1:
  "process_chromosome_optimized
     (''1'', filter (\<lambda>s. chromosome s = ''1'') faulty_rows, 1000000, 2, True) = Inl AttributeError"
  by (simp add: run_simps faulty_rows_def nameless_def)

section \<open>Runs with a configuration outside the documented range\<close>




















section \<open>The order in which seeds are tried\<close>

lemma star_hd_optimized:
  "hd (fst (collect_optimized T i s scan ([s], [row_index s]))) = s"
  using collect_optimized_extends [of T i s scan "[s]" "[row_index s]"] by auto

lemma group_loop_optimized_seeds:
  assumes "group_loop_optimized dbg T k segs pending groups processed = Inr gs"
  shows "\<exists>new. gs = groups @ new \<and> subseq (map hd new) (map snd pending)"
  using assms
proof (induction pending arbitrary: groups processed)
  case Nil
  then show ?case by simp
next
  case (Cons p pending)
  obtain i s where p: "p = (i, s)" by (cases p)
  let ?cg = "fst (collect_optimized T i s (enumerate 0 segs) ([s], [row_index s]))"
  show ?case
  proof (cases "row_index s \<notin> set processed \<and> k \<le> int (length ?cg)")
    case True
    with Cons.prems p
    have "group_loop_optimized dbg T k segs pending (groups @ [?cg])
              (processed @ map row_index ?cg) = Inr gs"
      by (simp add: Let_def split: if_splits sum.splits)
    from Cons.IH [OF this] obtain new where
      n: "gs = (groups @ [?cg]) @ new" "subseq (map hd new) (map snd pending)" by blast
    have "gs = groups @ (?cg # new)" using n(1) by simp
    moreover have "subseq (map hd (?cg # new)) (map snd (p # pending))"
      using n(2) p by (simp add: star_hd_optimized del: collect_optimized.simps)
    ultimately show ?thesis by blast
  next
    case False
    with Cons.prems p
    have "group_loop_optimized dbg T k segs pending groups processed = Inr gs"
      by (auto simp: Let_def split: if_splits)
    from Cons.IH [OF this] obtain new where
      n: "gs = groups @ new" "subseq (map hd new) (map snd pending)" by blast
    from n(2) have "subseq (map hd new) (map snd (p # pending))"
      by (simp add: list_emb_Cons)
    with n(1) show ?thesis by blast
  qed
qed

lemma process_seeds_in_sorted_order:
  assumes "process_chromosome_optimized (c, rows, T, k, debug) = Inr gs"
  shows "subseq (map hd gs) (sorted_segments rows)"
proof -
  let ?S = "sorted_segments rows"
  from assms have "group_loop_optimized (debug \<and> c = ''1'') T k ?S (enumerate 0 ?S) [] [] = Inr gs"
    by (simp add: Let_def)
  from group_loop_optimized_seeds [OF this] show ?thesis by (simp add: map_snd_enumerate)
qed

lemma group_loop_simple_seeds:
  "\<exists>new. group_loop_simple T k segs pending groups used = groups @ new
      \<and> subseq (map (\<lambda>g. snd (hd g)) new) (map snd pending) \<and> [] \<notin> set new"
proof (induction pending arbitrary: groups used)
  case Nil
  then show ?case by simp
next
  case (Cons p pending)
  obtain i s where p: "p = (i, s)" by (cases p)
  let ?st = "collect_simple T i s used (enumerate 0 segs) ([(i, s)], [i])"
  have hd: "hd (fst ?st) = (i, s)" "fst ?st \<noteq> []" by (simp_all add: collect_simple_filter)
  show ?case
  proof (cases "i \<notin> set used \<and> k \<le> int (length (fst ?st))")
    case True
    from Cons.IH [of "groups @ [fst ?st]" "used @ snd ?st"] obtain new where
      n: "group_loop_simple T k segs pending (groups @ [fst ?st]) (used @ snd ?st)
            = (groups @ [fst ?st]) @ new"
         "subseq (map (\<lambda>g. snd (hd g)) new) (map snd pending)" "[] \<notin> set new" by blast
    have "group_loop_simple T k segs (p # pending) groups used = groups @ (fst ?st # new)"
      using True p n(1) by (simp add: Let_def)
    moreover have "subseq (map (\<lambda>g. snd (hd g)) (fst ?st # new)) (map snd (p # pending))"
      using n(2) p hd(1) by simp
    moreover have "[] \<notin> set (fst ?st # new)" using n(3) hd(2) by simp
    ultimately show ?thesis by blast
  next
    case False
    from Cons.IH [of groups used] obtain new where
      n: "group_loop_simple T k segs pending groups used = groups @ new"
         "subseq (map (\<lambda>g. snd (hd g)) new) (map snd pending)" "[] \<notin> set new" by blast
    have "group_loop_simple T k segs (p # pending) groups used = groups @ new"
      using False p n(1) by (auto simp: Let_def)
    moreover from n(2) have "subseq (map (\<lambda>g. snd (hd g)) new) (map snd (p # pending))"
      by (simp add: list_emb_Cons)
    ultimately show ?thesis using n(3) by blast
  qed
qed

lemma simple_seeds_in_input_order:
  "subseq (map hd (find_overlapping_groups_simple rows T k)) rows"
proof -
  obtain new where n: "group_loop_simple T k rows (enumerate 0 rows) [] [] = new"
    "subseq (map (\<lambda>g. snd (hd g)) new) rows" "[] \<notin> set new"
    using group_loop_simple_seeds [of T k rows "enumerate 0 rows" "[]" "[]"]
    by (auto simp: map_snd_enumerate)
  have "map hd (map (map snd) new) = map (\<lambda>g. snd (hd g)) new"
    using n(3) by (induction new) (auto simp: hd_map)
  with n(2) have "subseq (map hd (map (map snd) new)) rows" by (simp only:)
  with n(1) show ?thesis
    by (simp only: find_overlapping_groups_simple_def find_overlapping_positions_simple_def)
qed

lemma unsorted_rows_runs:
  "detect_triangulation_simple unsorted_rows 2000000 2 =
     [[seg 0 ''X'' ''1'' 10000000 30000000, seg 1 ''Y'' ''1'' 0 12000000,
       seg 2 ''Z'' ''1'' 25000000 40000000]]"
  "sort_key start_location unsorted_rows =
     [seg 1 ''Y'' ''1'' 0 12000000, seg 0 ''X'' ''1'' 10000000 30000000,
      seg 2 ''Z'' ''1'' 25000000 40000000]"
  "detect_triangulation_simple (sort_key start_location unsorted_rows) 2000000 2 =
     [[seg 1 ''Y'' ''1'' 0 12000000, seg 0 ''X'' ''1'' 10000000 30000000]]"
  "detect_triangulation_groups_optimized 4 unsorted_rows 2000000 2 None True =
     Inr [[seg 1 ''Y'' ''1'' 0 12000000, seg 0 ''X'' ''1'' 10000000 30000000],
          [seg 2 ''Z'' ''1'' 25000000 40000000, seg 0 ''X'' ''1'' 10000000 30000000]]"
  by (simp_all add: run_simps unsorted_rows_def)


lemma unsorted_rows_process:
  "process_chromosome_optimized (''1'', unsorted_rows, 2000000, 2, True) =
     Inr [[seg 1 ''Y'' ''1'' 0 12000000, seg 0 ''X'' ''1'' 10000000 30000000],
          [seg 2 ''Z'' ''1'' 25000000 40000000, seg 0 ''X'' ''1'' 10000000 30000000]]"
  "process_chromosome_optimized (''1'', sort_key start_location unsorted_rows, 2000000, 2, True) =
     Inr [[seg 1 ''Y'' ''1'' 0 12000000, seg 0 ''X'' ''1'' 10000000 30000000],
          [seg 2 ''Z'' ''1'' 25000000 40000000, seg 0 ''X'' ''1'' 10000000 30000000]]"
  "sorted_segments (sort_key start_location unsorted_rows) = sort_key start_location unsorted_rows"
  "sorted_segments unsorted_rows = sort_key start_location unsorted_rows"
  "sorted (map start_location (sort_key start_location unsorted_rows))"
  "find_overlapping_groups_simple unsorted_rows 2000000 2 =
     [[seg 0 ''X'' ''1'' 10000000 30000000, seg 1 ''Y'' ''1'' 0 12000000,
       seg 2 ''Z'' ''1'' 25000000 40000000]]"
  by (simp_all add: run_simps unsorted_rows_def)

section \<open>Surnames\<close>

lemma split_from_empty_string [simp]: "py_split [] = []"
  by (simp add: py_split_def)

lemma extract_surname_rule: "extract_surname name_cell = surname_rule name_cell"
proof (cases name_cell)
  case None
  then show ?thesis by (simp add: extract_surname_def surname_rule_def surname_tokens_def)
next
  case (Some name)
  let ?parts = "py_split (py_strip (py_remove ''Ph.D.'' (py_remove ''Dr.''
                    (py_remove ''Mrs.'' (py_remove ''Mr.'' name)))))"
  have tok: "surname_tokens name_cell = ?parts" using Some by (simp add: surname_tokens_def)
  show ?thesis
  proof (cases "name = []")
    case True
    with Some show ?thesis
      by (simp add: extract_surname_def surname_rule_def surname_tokens_def py_strip_def)
  next
    case False
    have "extract_surname name_cell =
        (if 2 \<le> length ?parts then last ?parts else if ?parts \<noteq> [] then hd ?parts else ''Unknown'')"
      using Some False by (simp add: extract_surname_def Let_def)
    also have "\<dots> = surname_rule name_cell"
      unfolding surname_rule_def tok
      by (cases ?parts rule: list.exhaust; cases "tl ?parts") (auto split: list.splits)
    finally show ?thesis .
  qed
qed

section \<open>The reports and the filter argument\<close>

lemma ranked_lines_report:
  "ranked_lines f xs report =
     (case ranked_lines f xs [] of Inl e \<Rightarrow> Inl e | Inr ls \<Rightarrow> Inr (report @ ls))"
proof (induction xs arbitrary: report)
  case Nil
  then show ?case by simp
next
  case (Cons x xs)
  show ?case
  proof (cases "f x")
    case (Inl e)
    then show ?thesis by simp
  next
    case (Inr ls)
    have "ranked_lines f (x # xs) report = ranked_lines f xs (report @ ls)" using Inr by simp
    also have "\<dots> = (case ranked_lines f xs [] of Inl e \<Rightarrow> Inl e | Inr ms \<Rightarrow> Inr ((report @ ls) @ ms))"
      by (rule Cons.IH)
    finally have a: "ranked_lines f (x # xs) report =
        (case ranked_lines f xs [] of Inl e \<Rightarrow> Inl e | Inr ms \<Rightarrow> Inr (report @ ls @ ms))"
      by (simp split: sum.splits)
    have "ranked_lines f (x # xs) [] = ranked_lines f xs ([] @ ls)" using Inr by simp
    also have "\<dots> = (case ranked_lines f xs [] of Inl e \<Rightarrow> Inl e | Inr ms \<Rightarrow> Inr (([] @ ls) @ ms))"
      by (rule Cons.IH)
    finally have b: "ranked_lines f (x # xs) [] =
        (case ranked_lines f xs [] of Inl e \<Rightarrow> Inl e | Inr ms \<Rightarrow> Inr (ls @ ms))"
      by (simp split: sum.splits)
    show ?thesis unfolding a b by (simp split: sum.splits)
  qed
qed

lemma filter_note_filtered: "filter (\<lambda>l. \<not> is_filter_note l) (filter_note f) = []"
  by (simp add: filter_note_def split: option.splits)

lemma filter_note_None: "filter_note None = []"
  by (simp add: filter_note_def)

lemma report_optimized_note:
  "groups \<noteq> [] \<Longrightarrow>
     create_triangulation_report_by_size_optimized groups f =
       with_filter_note f (create_triangulation_report_by_size_optimized groups None)"
  unfolding create_triangulation_report_by_size_optimized_def Let_def with_filter_note_def
  by (subst (1 2) ranked_lines_report) (simp add: filter_note_None split: sum.splits)

lemma report_simple_note:
  "groups \<noteq> [] \<Longrightarrow>
     create_triangulation_report_by_size_simple groups f =
       with_filter_note f (create_triangulation_report_by_size_simple groups None)"
  unfolding create_triangulation_report_by_size_simple_def Let_def with_filter_note_def
  by (subst (1 2) ranked_lines_report) (simp add: filter_note_None split: sum.splits)

lemma without_with_filter_note:
  "without_filter_note (with_filter_note f report) = without_filter_note report"
proof (cases report)
  case (Inl e)
  then show ?thesis by (simp add: without_filter_note_def with_filter_note_def)
next
  case (Inr ls)
  have "filter (\<lambda>l. \<not> is_filter_note l) (take 3 ls @ filter_note f @ drop 3 ls) =
      filter (\<lambda>l. \<not> is_filter_note l) (take 3 ls @ drop 3 ls)"
    by (simp only: filter_append filter_note_filtered append_Nil)
  also have "\<dots> = filter (\<lambda>l. \<not> is_filter_note l) ls" by (simp only: append_take_drop_id)
  finally show ?thesis using Inr
    by (simp only: without_filter_note_def with_filter_note_def sum.case)
qed


lemma report_groups_example:
  "create_triangulation_report_by_size_optimized
     [[seg 0 ''Dr. Jane A. Smith'' ''1'' 0 10000000, seg 1 ''Bob Smith'' ''1'' 5000000 15000000]]
     (Some 7) =
   Inr [Text ''DNA TRIANGULATION GROUPS - SORTED BY SIZE'',
        Text ''============================================================'',
        Text ''(Largest groups first - these represent your strongest ancestral lines)'',
        FilterNote 7, Text [], SummaryFound 1, LargestGroup 2, SmallestGroup 2, Text [],
        Text ''============================================================'',
        Text [], RankLine 1 2, LocationLine ''1'' 0 15000000, StrengthLine 10 20, Text [],
        Text ''PEOPLE IN THIS GROUP (by family name):'',
        FamilyLine ''Smith'' 2,
        MemberLine (seg 0 ''Dr. Jane A. Smith'' ''1'' 0 10000000),
        MemberLine (seg 1 ''Bob Smith'' ''1'' 5000000 15000000),
        Text [], PureLine ''Smith'', ConsiderLine ''Smith'', Text [],
        Text ''  MANUAL ASSIGNMENT: ________________________________'',
        Text ''  (Write the ancestor name you want to assign this group to)'',
        Text [],
        Text ''------------------------------------------------------------'',
        Text []]"
  by code_simp

section \<open>The strict verification pass\<close>

text \<open>
  The loop \<open>while stack\<close> over a graph \<open>E\<close> whose edges \<open>adj\<close> lists: it visits new
  nodes only, each reachable from the stack, and in the end every node of the stack and
  every neighbour of a new node is visited.
\<close>

lemma dfs_loop_visits:
  assumes "\<forall>i<length segs. set (adj i) = E `` {i}"
    and "E \<subseteq> {..<length segs} \<times> {..<length segs}"
    and "set stack \<subseteq> {..<length segs}"
  shows "\<exists>new. dfs_loop segs adj stack visited acc =
                 Inr (new @ visited, acc @ map ((!) segs) (rev new))
           \<and> distinct new \<and> set new \<inter> set visited = {}
           \<and> set new \<subseteq> E\<^sup>* `` set stack
           \<and> set stack \<subseteq> set (new @ visited)
           \<and> (\<forall>u\<in>set new. E `` {u} \<subseteq> set (new @ visited))"
  using assms
proof (induction segs adj stack visited acc rule: dfs_loop.induct)
  case (1 segments adj visited component)
  show ?case by (intro exI [of _ "[]"]) simp
next
  case (2 segments adj node stack visited component)
  note adj = "2.prems"(1) and E = "2.prems"(2) and stk = "2.prems"(3)
  show ?case
  proof (cases "node \<in> set visited")
    case True
    from stk have "set stack \<subseteq> {..<length segments}" by simp
    from "2.IH"(1) [OF True adj E this] obtain new where
      n: "dfs_loop segments adj stack visited component =
            Inr (new @ visited, component @ map ((!) segments) (rev new))"
         "distinct new" "set new \<inter> set visited = {}" "set new \<subseteq> E\<^sup>* `` set stack"
         "set stack \<subseteq> set (new @ visited)" "\<forall>u\<in>set new. E `` {u} \<subseteq> set (new @ visited)"
      by blast
    have "dfs_loop segments adj (node # stack) visited component =
            Inr (new @ visited, component @ map ((!) segments) (rev new))"
      using True n(1) by simp
    moreover have "set new \<subseteq> E\<^sup>* `` set (node # stack)" using n(4) by auto
    moreover have "set (node # stack) \<subseteq> set (new @ visited)" using True n(5) by auto
    ultimately show ?thesis using n(2,3,6) by blast
  next
    case False
    from stk have lt: "node < length segments" by simp
    then have nle: "\<not> length segments \<le> node" by simp
    let ?push = "rev (filter (\<lambda>neighbor. neighbor \<notin> set (node # visited)) (adj node))"
    have adjn: "set (adj node) = E `` {node}" using adj lt by simp
    have "set (adj node) \<subseteq> {..<length segments}" using adjn E by auto
    with stk have "set (?push @ stack) \<subseteq> {..<length segments}" by auto
    from "2.IH"(2) [OF False nle adj E this] obtain new where
      n: "dfs_loop segments adj (?push @ stack) (node # visited) (component @ [segments ! node]) =
            Inr (new @ node # visited, (component @ [segments ! node]) @ map ((!) segments) (rev new))"
         "distinct new" "set new \<inter> set (node # visited) = {}"
         "set new \<subseteq> E\<^sup>* `` set (?push @ stack)"
         "set (?push @ stack) \<subseteq> set (new @ node # visited)"
         "\<forall>u\<in>set new. E `` {u} \<subseteq> set (new @ node # visited)"
      by blast
    let ?new = "new @ [node]"
    have r: "dfs_loop segments adj (node # stack) visited component =
            Inr (?new @ visited, component @ map ((!) segments) (rev ?new))"
      using False nle n(1) by simp
    have d: "distinct ?new" using n(2,3) by auto
    have i: "set ?new \<inter> set visited = {}" using n(3) False by auto
    have reach: "set ?new \<subseteq> E\<^sup>* `` set (node # stack)"
    proof
      fix v assume "v \<in> set ?new"
      then consider "v = node" | "v \<in> set new" by auto
      then show "v \<in> E\<^sup>* `` set (node # stack)"
      proof cases
        case 1
        then show ?thesis by auto
      next
        case 2
        with n(4) obtain s where s: "s \<in> set (?push @ stack)" "(s, v) \<in> E\<^sup>*" by blast
        from s(1) consider "s \<in> set (adj node)" | "s \<in> set stack" by auto
        then show ?thesis
        proof cases
          case 1
          with adjn have "(node, s) \<in> E" by auto
          from this s(2) have "(node, v) \<in> E\<^sup>*" by (rule converse_rtrancl_into_rtrancl)
          then show ?thesis by auto
        next
          case 2
          with s(2) show ?thesis by auto
        qed
      qed
    qed
    have st: "set (node # stack) \<subseteq> set (?new @ visited)" using n(5) by auto
    have nb: "\<forall>u\<in>set ?new. E `` {u} \<subseteq> set (?new @ visited)"
    proof
      fix u assume "u \<in> set ?new"
      then consider "u = node" | "u \<in> set new" by auto
      then show "E `` {u} \<subseteq> set (?new @ visited)"
      proof cases
        case 1
        show ?thesis
        proof
          fix w assume "w \<in> E `` {u}"
          with 1 adjn have w: "w \<in> set (adj node)" by simp
          show "w \<in> set (?new @ visited)"
          proof (cases "w \<in> set (node # visited)")
            case True
            then show ?thesis by auto
          next
            case False
            with w have "w \<in> set (?push @ stack)" by simp
            with n(5) show ?thesis by auto
          qed
        qed
      next
        case 2
        with n(6) show ?thesis by auto
      qed
    qed
    from r d i reach st nb show ?thesis by blast
  qed
qed


lemma component_same:
  assumes "sym E" and "v \<in> E\<^sup>* `` {s}"
  shows "E\<^sup>* `` {v} = E\<^sup>* `` {s}"
proof -
  from assms(2) have sv: "(s, v) \<in> E\<^sup>*" by simp
  have "sym (E\<^sup>*)" using assms(1) by (rule sym_rtrancl)
  with sv have vs: "(v, s) \<in> E\<^sup>*" by (auto dest: symD)
  show ?thesis
  proof (intro equalityI subsetI)
    fix w assume "w \<in> E\<^sup>* `` {v}"
    then have "(v, w) \<in> E\<^sup>*" by simp
    with sv have "(s, w) \<in> E\<^sup>*" by (rule rtrancl_trans)
    then show "w \<in> E\<^sup>* `` {s}" by simp
  next
    fix w assume "w \<in> E\<^sup>* `` {s}"
    then have "(s, w) \<in> E\<^sup>*" by simp
    with vs have "(v, w) \<in> E\<^sup>*" by (rule rtrancl_trans)
    then show "w \<in> E\<^sup>* `` {v}" by simp
  qed
qed

text \<open>One run of the loop from an unvisited start node visits its whole component.\<close>

lemma dfs_loop_component:
  assumes adj: "\<forall>i<length segs. set (adj i) = E `` {i}"
    and E: "E \<subseteq> {..<length segs} \<times> {..<length segs}" and sym: "sym E"
    and closed: "E `` set visited \<subseteq> set visited"
    and s: "s < length segs" "s \<notin> set visited"
  shows "\<exists>new. dfs_loop segs adj [s] visited [] = Inr (new @ visited, map ((!) segs) (rev new))
           \<and> distinct new \<and> set new = E\<^sup>* `` {s}"
proof -
  from s(1) have "set [s] \<subseteq> {..<length segs}" by simp
  from dfs_loop_visits [OF adj E this, of visited "[]"] obtain new where
    n: "dfs_loop segs adj [s] visited [] = Inr (new @ visited, [] @ map ((!) segs) (rev new))"
       "distinct new" "set new \<inter> set visited = {}" "set new \<subseteq> E\<^sup>* `` set [s]"
       "set [s] \<subseteq> set (new @ visited)" "\<forall>u\<in>set new. E `` {u} \<subseteq> set (new @ visited)"
    by blast
  from n(5) s(2) have start: "s \<in> set new" by auto
  have "v \<in> set new" if "(s, v) \<in> E\<^sup>*" for v
    using that
  proof (induction rule: rtrancl_induct)
    case base
    show ?case by (rule start)
  next
    case (step y z)
    from step.IH n(6) step.hyps(2) have "z \<in> set (new @ visited)" by blast
    moreover have "z \<notin> set visited"
    proof
      assume z: "z \<in> set visited"
      from sym step.hyps(2) have "(z, y) \<in> E" by (auto dest: symD)
      with z closed have "y \<in> set visited" by blast
      with step.IH n(3) show False by blast
    qed
    ultimately show ?case by simp
  qed
  then have "E\<^sup>* `` {s} \<subseteq> set new" by auto
  with n(4) have "set new = E\<^sup>* `` {s}" by auto
  with n(1,2) show ?thesis by auto
qed

lemma component_loop_largest:
  assumes adj: "\<forall>i<length segs. set (adj i) = E `` {i}"
    and E: "E \<subseteq> {..<length segs} \<times> {..<length segs}" and sym: "sym E"
  shows "E `` set visited \<subseteq> set visited \<Longrightarrow> largest_so_far segs E visited largest \<Longrightarrow>
     set starts \<subseteq> {..<length segs} \<Longrightarrow>
     \<exists>visited' largest'. component_loop segs adj starts visited largest = Inr largest'
        \<and> largest_so_far segs E visited' largest' \<and> set visited \<union> set starts \<subseteq> set visited'"
proof (induction starts arbitrary: visited largest)
  case Nil
  then show ?case by auto
next
  case (Cons s starts)
  from Cons.prems(3) have rest: "set starts \<subseteq> {..<length segs}" and s: "s < length segs"
    by simp_all
  show ?case
  proof (cases "s \<in> set visited")
    case True
    from Cons.IH [OF Cons.prems(1,2) rest] obtain visited' largest' where
      r: "component_loop segs adj starts visited largest = Inr largest'"
         "largest_so_far segs E visited' largest'" "set visited \<union> set starts \<subseteq> set visited'"
      by blast
    from r(1) True have "component_loop segs adj (s # starts) visited largest = Inr largest'"
      by simp
    moreover from r(3) True have "set visited \<union> set (s # starts) \<subseteq> set visited'" by auto
    ultimately show ?thesis using r(2) by blast
  next
    case False
    from dfs_loop_component [OF adj E sym Cons.prems(1) s False] obtain new where
      n: "dfs_loop segs adj [s] visited [] = Inr (new @ visited, map ((!) segs) (rev new))"
         "distinct new" "set new = E\<^sup>* `` {s}"
      by blast
    let ?comp = "map ((!) segs) (rev new)"
    let ?largest = "if length largest < length ?comp then ?comp else largest"
    have closed: "E `` set (new @ visited) \<subseteq> set (new @ visited)"
    proof
      fix w assume "w \<in> E `` set (new @ visited)"
      then obtain u where u: "u \<in> set (new @ visited)" "(u, w) \<in> E" by blast
      show "w \<in> set (new @ visited)"
      proof (cases "u \<in> set new")
        case True
        with n(3) have "(s, u) \<in> E\<^sup>*" by simp
        from this u(2) have "(s, w) \<in> E\<^sup>*" by (rule rtrancl_into_rtrancl)
        with n(3) show ?thesis by simp
      next
        case False
        with u(1) have "u \<in> set visited" by simp
        with u(2) Cons.prems(1) show ?thesis by auto
      qed
    qed
    have size: "card (E\<^sup>* `` {s}) = length new"
      using n(2,3) distinct_card [of new] by simp
    have inv: "largest_so_far segs E (new @ visited) ?largest"
      unfolding largest_so_far_def
    proof (intro conjI ballI)
      fix v assume "v \<in> set (new @ visited)"
      then consider "v \<in> set new" | "v \<in> set visited" by auto
      then show "card (E\<^sup>* `` {v}) \<le> length ?largest"
      proof cases
        case 1
        with n(3) have "E\<^sup>* `` {v} = E\<^sup>* `` {s}" by (intro component_same [OF sym]) simp
        with size show ?thesis by simp
      next
        case 2
        with Cons.prems(2) have "card (E\<^sup>* `` {v}) \<le> length largest"
          by (simp add: largest_so_far_def)
        then show ?thesis by simp
      qed
    next
      show "?largest = [] \<or>
          (\<exists>nodes v. ?largest = map ((!) segs) nodes \<and> distinct nodes \<and> v < length segs
              \<and> set nodes = E\<^sup>* `` {v})"
      proof (cases "length largest < length ?comp")
        case True
        have "?comp = map ((!) segs) (rev new) \<and> distinct (rev new) \<and> s < length segs
            \<and> set (rev new) = E\<^sup>* `` {s}"
          using n(2,3) s by simp
        with True show ?thesis by (simp only: if_True) blast
      next
        case False
        with Cons.prems(2) show ?thesis by (simp add: largest_so_far_def)
      qed
    qed
    from Cons.IH [OF closed inv rest] obtain visited' largest' where
      r: "component_loop segs adj starts (new @ visited) ?largest = Inr largest'"
         "largest_so_far segs E visited' largest'"
         "set (new @ visited) \<union> set starts \<subseteq> set visited'"
      by blast
    have "component_loop segs adj (s # starts) visited largest = Inr largest'"
      using False n(1) r(1) by simp
    moreover have "s \<in> set new" using n(3) by simp
    with r(3) have "set visited \<union> set (s # starts) \<subseteq> set visited'" by auto
    ultimately show ?thesis using r(2) by blast
  qed
qed

lemma overlap_bp_sym: "overlap_bp a b = overlap_bp b a"
  by (simp add: overlap_bp_def overlap_length_def min.commute max.commute)

lemma sym_overlap_edges: "sym (overlap_edges segs T)"
  by (auto simp: sym_def overlap_edges_def overlap_bp_sym)

lemma overlap_edges_within:
  "overlap_edges segs T \<subseteq> {..<length segs} \<times> {..<length segs}"
  by (auto simp: overlap_edges_def)

lemma adjacency_edges:
  "i < length segs \<Longrightarrow> set (adjacency segs T i) = overlap_edges segs T `` {i}"
  by (auto simp: adjacency_def overlap_edges_def overlap_bp_sym)

lemma component_within:
  assumes "v < length segs"
  shows "component_of segs T v \<subseteq> {..<length segs}"
proof
  fix w assume "w \<in> component_of segs T v"
  then have "(v, w) \<in> (overlap_edges segs T)\<^sup>*" by (simp add: component_of_def)
  then show "w \<in> {..<length segs}"
    using assms by (induction rule: rtrancl_induct) (auto simp: overlap_edges_def)
qed

lemma find_connected_components_largest:
  assumes "2 \<le> length segs" and "\<forall>xs. set (iter xs) = set xs"
  shows "\<exists>nodes v. find_connected_components iter segs T = Inr (map ((!) segs) nodes)
           \<and> distinct nodes \<and> v < length segs \<and> set nodes = component_of segs T v
           \<and> (\<forall>w<length segs. card (component_of segs T w) \<le> length nodes)"
proof -
  let ?E = "overlap_edges segs T"
  let ?adj = "\<lambda>node. iter (adjacency segs T node)"
  have adj: "\<forall>i<length segs. set (?adj i) = ?E `` {i}"
    using assms(2) by (simp add: adjacency_edges)
  have "\<exists>visited' largest'. component_loop segs ?adj [0..<length segs] [] [] = Inr largest'
        \<and> largest_so_far segs ?E visited' largest'
        \<and> set [] \<union> set [0..<length segs] \<subseteq> set visited'"
    by (rule component_loop_largest [OF adj overlap_edges_within sym_overlap_edges])
       (auto simp: largest_so_far_def)
  then obtain visited' largest' where
    r: "component_loop segs ?adj [0..<length segs] [] [] = Inr largest'"
       "largest_so_far segs ?E visited' largest'" "set [0..<length segs] \<subseteq> set visited'"
    by auto
  have all: "card (component_of segs T w) \<le> length largest'" if "w < length segs" for w
    using r(2,3) that by (auto simp: largest_so_far_def component_of_def)
  have pos: "0 < length segs" using assms(1) by linarith
  have "0 < card (component_of segs T 0)"
  proof -
    from pos have "component_of segs T 0 \<subseteq> {..<length segs}" by (rule component_within)
    then have "finite (component_of segs T 0)" by (rule finite_subset) simp
    moreover have "0 \<in> component_of segs T 0" by (simp add: component_of_def)
    ultimately show ?thesis by (auto simp: card_gt_0_iff)
  qed
  with all [OF pos] have "0 < length largest'" by linarith
  then have "largest' \<noteq> []" by auto
  with r(2) obtain nodes v where
    n: "largest' = map ((!) segs) nodes" "distinct nodes" "v < length segs"
       "set nodes = component_of segs T v"
    by (auto simp: largest_so_far_def component_of_def)
  have "find_connected_components iter segs T = Inr (map ((!) segs) nodes)"
    using assms(1) r(1) n(1) by (simp add: find_connected_components_def)
  moreover have "\<forall>w<length segs. card (component_of segs T w) \<le> length nodes"
    using all n(1) by simp
  ultimately show ?thesis using n(2,3,4) by blast
qed

text \<open>The pass over at most five segments keeps what overlaps something kept before.\<close>

lemma verify_small_loop_keeps:
  "\<exists>extra. verify_small_loop T cands valid = valid @ extra \<and> subseq extra cands
      \<and> (\<forall>k<length extra. \<exists>v\<in>set (valid @ take k extra). T \<le> overlap_bp (extra ! k) v)
      \<and> (\<forall>c\<in>set cands. (\<exists>v\<in>set valid. T \<le> overlap_bp c v) \<longrightarrow> c \<in> set extra)"
proof (induction cands arbitrary: valid)
  case Nil
  then show ?case by simp
next
  case (Cons c cands)
  show ?case
  proof (cases "\<exists>v\<in>set valid. T \<le> overlap_bp c v")
    case True
    from Cons.IH [of "valid @ [c]"] obtain extra where
      e: "verify_small_loop T cands (valid @ [c]) = (valid @ [c]) @ extra" "subseq extra cands"
         "\<forall>k<length extra. \<exists>v\<in>set ((valid @ [c]) @ take k extra). T \<le> overlap_bp (extra ! k) v"
         "\<forall>c'\<in>set cands. (\<exists>v\<in>set (valid @ [c]). T \<le> overlap_bp c' v) \<longrightarrow> c' \<in> set extra"
      by blast
    have "verify_small_loop T (c # cands) valid = valid @ (c # extra)"
      using True e(1) by (simp add: list_ex_iff)
    moreover have "subseq (c # extra) (c # cands)" using e(2) by simp
    moreover have "\<forall>k<length (c # extra).
        \<exists>v\<in>set (valid @ take k (c # extra)). T \<le> overlap_bp ((c # extra) ! k) v"
    proof (intro allI impI)
      fix k assume k: "k < length (c # extra)"
      show "\<exists>v\<in>set (valid @ take k (c # extra)). T \<le> overlap_bp ((c # extra) ! k) v"
      proof (cases k)
        case 0
        with True show ?thesis by simp
      next
        case (Suc j)
        with k have "j < length extra" by simp
        with e(3) obtain v where "v \<in> set ((valid @ [c]) @ take j extra)"
          "T \<le> overlap_bp (extra ! j) v" by blast
        with Suc show ?thesis by auto
      qed
    qed
    moreover have "\<forall>c'\<in>set (c # cands). (\<exists>v\<in>set valid. T \<le> overlap_bp c' v) \<longrightarrow> c' \<in> set (c # extra)"
      using e(4) by auto
    ultimately show ?thesis by blast
  next
    case False
    from Cons.IH [of valid] obtain extra where
      e: "verify_small_loop T cands valid = valid @ extra" "subseq extra cands"
         "\<forall>k<length extra. \<exists>v\<in>set (valid @ take k extra). T \<le> overlap_bp (extra ! k) v"
         "\<forall>c'\<in>set cands. (\<exists>v\<in>set valid. T \<le> overlap_bp c' v) \<longrightarrow> c' \<in> set extra"
      by blast
    have "verify_small_loop T (c # cands) valid = valid @ extra"
      using False e(1) by (simp add: list_ex_iff)
    moreover have "subseq extra (c # cands)" using e(2) by (simp add: list_emb_Cons)
    moreover have "\<forall>c'\<in>set (c # cands). (\<exists>v\<in>set valid. T \<le> overlap_bp c' v) \<longrightarrow> c' \<in> set extra"
      using e(4) False by auto
    ultimately show ?thesis using e(3) by blast
  qed
qed

lemma strict_pass_examples:
  "verify_triangulation_group (\<lambda>xs. xs) lone_first 2 = Inr [seg 0 ''A'' ''1'' 0 10]"
  "find_connected_components (\<lambda>xs. xs) lone_first 2 =
     Inr [seg 1 ''B'' ''1'' 20 30, seg 2 ''C'' ''1'' 25 40]"
  "verify_triangulation_group (\<lambda>xs. xs) late_link 2 =
     Inr [seg 0 ''A'' ''1'' 0 10, seg 2 ''C'' ''1'' 5 25]"
  "find_connected_components (\<lambda>xs. xs) late_link 2 =
     Inr [seg 0 ''A'' ''1'' 0 10, seg 2 ''C'' ''1'' 5 25, seg 1 ''B'' ''1'' 20 30]"
  "verify_triangulation_group rev six_segments 2 =
     Inr [seg 1 ''B'' ''1'' 20 30, seg 2 ''C'' ''1'' 25 40, seg 3 ''D'' ''1'' 35 50]"
  "(1, 2) \<in> overlap_edges lone_first 2"
  "(0, 2) \<in> overlap_edges late_link 2" "(2, 1) \<in> overlap_edges late_link 2"
  by (simp_all add: verify_triangulation_group_def find_connected_components_def
      lone_first_def late_link_def six_segments_def adjacency_def overlap_edges_def
      overlap_bp_def overlap_length_def seg_def upt_rec)


lemma strict_pass_components:
  "{1, 2} \<subseteq> component_of lone_first 2 1" "{0, 1, 2} \<subseteq> component_of late_link 2 0"
proof -
  have "(1, 2) \<in> (overlap_edges lone_first 2)\<^sup>*"
    using strict_pass_examples(6) by (rule r_into_rtrancl)
  then show "{1, 2} \<subseteq> component_of lone_first 2 1" by (simp add: component_of_def)
  have a: "(0, 2) \<in> (overlap_edges late_link 2)\<^sup>*"
    using strict_pass_examples(7) by (rule r_into_rtrancl)
  from a strict_pass_examples(8) have "(0, 1) \<in> (overlap_edges late_link 2)\<^sup>*"
    by (rule rtrancl_into_rtrancl)
  with a show "{0, 1, 2} \<subseteq> component_of late_link 2 0" by (simp add: component_of_def)
qed

section \<open>Where the members of a group come from\<close>






section \<open>Which candidates the pass over at most five segments keeps\<close>

lemma verify_small_loop_snoc:
  "verify_small_loop T (cands @ [c]) valid =
     (if list_ex (\<lambda>v. T \<le> overlap_bp c v) (verify_small_loop T cands valid)
      then verify_small_loop T cands valid @ [c]
      else verify_small_loop T cands valid)"
  by (induction cands arbitrary: valid) simp_all

text \<open>
  The candidates kept are those at the positions \<open>js\<close>: a position is kept exactly when
  its candidate overlaps a segment of the start list or a candidate kept at an earlier
  position.
\<close>

lemma verify_small_loop_positions:
  "\<exists>js. verify_small_loop T cands valid = valid @ map ((!) cands) js
      \<and> sorted_wrt (<) js \<and> set js \<subseteq> {..<length cands}
      \<and> (\<forall>j<length cands. j \<in> set js \<longleftrightarrow>
            (\<exists>v\<in>set (valid @ map ((!) cands) (filter (\<lambda>i. i < j) js)).
               T \<le> overlap_bp (cands ! j) v))"
proof (induction cands rule: rev_induct)
  case Nil
  show ?case by (intro exI [of _ "[]"]) simp
next
  case (snoc c cands)
  let ?n = "length cands"
  let ?cs = "cands @ [c]"
  from snoc.IH obtain js where
    js: "verify_small_loop T cands valid = valid @ map ((!) cands) js"
        "sorted_wrt (<) js" "set js \<subseteq> {..<?n}"
        "\<forall>j<?n. j \<in> set js \<longleftrightarrow>
            (\<exists>v\<in>set (valid @ map ((!) cands) (filter (\<lambda>i. i < j) js)).
               T \<le> overlap_bp (cands ! j) v)"
    by blast
  have same: "map ((!) ?cs) ks = map ((!) cands) ks" if "set ks \<subseteq> {..<?n}" for ks
    using that by (intro map_cong) (auto simp: nth_append)
  have below: "set (filter (\<lambda>i. i < j) js) \<subseteq> {..<?n}" for j
    using js(3) by auto
  have all_below: "filter (\<lambda>i. i < ?n) js = js"
    using js(3) by (intro filter_True) auto
  have notin: "?n \<notin> set js" using js(3) by auto
  let ?kept = "verify_small_loop T cands valid"
  have earlier: "(j \<in> set ks \<longleftrightarrow>
        (\<exists>v\<in>set (valid @ map ((!) ?cs) (filter (\<lambda>i. i < j) ks)). T \<le> overlap_bp (?cs ! j) v))"
    if "j < ?n" and "filter (\<lambda>i. i < j) ks = filter (\<lambda>i. i < j) js"
      and "j \<in> set ks \<longleftrightarrow> j \<in> set js" for j ks
  proof -
    have "map ((!) ?cs) (filter (\<lambda>i. i < j) ks) = map ((!) cands) (filter (\<lambda>i. i < j) js)"
      using that(2) same [OF below [of j]] by simp
    moreover have "?cs ! j = cands ! j" using that(1) by (simp add: nth_append)
    ultimately show ?thesis using js(4) that(1,3) by simp
  qed
  show ?case
  proof (cases "list_ex (\<lambda>v. T \<le> overlap_bp c v) ?kept")
    case True
    let ?js = "js @ [?n]"
    have res: "verify_small_loop T ?cs valid = valid @ map ((!) ?cs) ?js"
      using True js(1) same [OF js(3)] by (simp add: verify_small_loop_snoc)
    have srt: "sorted_wrt (<) ?js" using js(2,3) by (auto simp: sorted_wrt_append)
    have rng: "set ?js \<subseteq> {..<length ?cs}" using js(3) by auto
    have iff: "\<forall>j<length ?cs. j \<in> set ?js \<longleftrightarrow>
            (\<exists>v\<in>set (valid @ map ((!) ?cs) (filter (\<lambda>i. i < j) ?js)).
               T \<le> overlap_bp (?cs ! j) v)"
    proof (intro allI impI)
      fix j assume "j < length ?cs"
      then consider "j < ?n" | "j = ?n" by fastforce
      then show "j \<in> set ?js \<longleftrightarrow>
            (\<exists>v\<in>set (valid @ map ((!) ?cs) (filter (\<lambda>i. i < j) ?js)).
               T \<le> overlap_bp (?cs ! j) v)"
      proof cases
        case 1
        then show ?thesis by (intro earlier) auto
      next
        case 2
        have "filter (\<lambda>i. i < ?n) ?js = js" using all_below by simp
        then have "set (valid @ map ((!) ?cs) (filter (\<lambda>i. i < j) ?js)) = set ?kept"
          using 2 js(1) same [OF js(3)] by simp
        moreover have "?cs ! j = c" using 2 by simp
        ultimately show ?thesis using True 2 by (simp add: list_ex_iff)
      qed
    qed
    from res srt rng iff show ?thesis by blast
  next
    case False
    have res: "verify_small_loop T ?cs valid = valid @ map ((!) ?cs) js"
      using False js(1) same [OF js(3)] by (simp add: verify_small_loop_snoc)
    have rng: "set js \<subseteq> {..<length ?cs}" using js(3) by auto
    have iff: "\<forall>j<length ?cs. j \<in> set js \<longleftrightarrow>
            (\<exists>v\<in>set (valid @ map ((!) ?cs) (filter (\<lambda>i. i < j) js)).
               T \<le> overlap_bp (?cs ! j) v)"
    proof (intro allI impI)
      fix j assume "j < length ?cs"
      then consider "j < ?n" | "j = ?n" by fastforce
      then show "j \<in> set js \<longleftrightarrow>
            (\<exists>v\<in>set (valid @ map ((!) ?cs) (filter (\<lambda>i. i < j) js)).
               T \<le> overlap_bp (?cs ! j) v)"
      proof cases
        case 1
        then show ?thesis by (intro earlier) auto
      next
        case 2
        have "set (valid @ map ((!) ?cs) (filter (\<lambda>i. i < j) js)) = set ?kept"
          using 2 all_below js(1) same [OF js(3)] by simp
        moreover have "?cs ! j = c" using 2 by simp
        ultimately show ?thesis using False 2 notin by (simp add: list_ex_iff)
      qed
    qed
    from res js(2) rng iff show ?thesis by blast
  qed
qed

lemma chain_link_run:
  "verify_triangulation_group rev chain_link 2 =
     Inr [seg 0 ''A'' ''1'' 0 10, seg 2 ''C'' ''1'' 5 25, seg 1 ''B'' ''1'' 20 30]"
  "overlap_bp (seg 1 ''B'' ''1'' 20 30) (seg 0 ''A'' ''1'' 0 10) < 2"
  by (simp_all add: verify_triangulation_group_def chain_link_def overlap_bp_def
      overlap_length_def seg_def)

section \<open>The claims\<close>

text \<open>
  C1. No segment appears in two returned groups. The simple engine keeps this
  (\<open>simple_positions_disjoint\<close>): its scan skips every position in
  \<open>used_segments\<close>. The scan of the optimized engine tests
  \<open>current_group_indices\<close> only, never \<open>processed_indices\<close>, so a later seed
  collects a segment that an emitted group already holds: on the three example rows B is
  returned in the group of seed A and again in the group of seed C, where the simple
  engine returns the one group of A and B.
\<close>

theorem optimized_collects_consumed_segment:
  "detect_triangulation_groups_optimized 4 example_rows 1000000 2 None True =
     Inr [[seg 0 ''A'' ''1'' 0 10000000, seg 1 ''B'' ''1'' 5000000 15000000],
          [seg 2 ''C'' ''1'' 9500000 20000000, seg 1 ''B'' ''1'' 5000000 15000000]]
   \<and> detect_triangulation_simple example_rows 1000000 2 =
     [[seg 0 ''A'' ''1'' 0 10000000, seg 1 ''B'' ''1'' 5000000 15000000]]"
  by (simp add: example_rows_optimized example_rows_detect_simple)

text \<open>
  C2. The simple engine does not sort: it tries the seeds in the row order of its input.
  On the rows X, Y, Z, where Y starts before X, its first seed is X and the one group it
  returns holds all three rows; on the same rows in start order (Y, X, Z) it returns the
  group of Y and X only. So for this engine the seeds are not tried in start order and
  the result is not determined by the sorted rows.
\<close>

theorem simple_engine_does_not_sort:
  "detect_triangulation_simple unsorted_rows 2000000 2 =
     [[seg 0 ''X'' ''1'' 10000000 30000000, seg 1 ''Y'' ''1'' 0 12000000,
       seg 2 ''Z'' ''1'' 25000000 40000000]]
   \<and> sort_key start_location unsorted_rows =
     [seg 1 ''Y'' ''1'' 0 12000000, seg 0 ''X'' ''1'' 10000000 30000000,
      seg 2 ''Z'' ''1'' 25000000 40000000]
   \<and> detect_triangulation_simple (sort_key start_location unsorted_rows) 2000000 2 =
     [[seg 1 ''Y'' ''1'' 0 12000000, seg 0 ''X'' ''1'' 10000000 30000000]]"
  by (intro conjI) (rule unsorted_rows_runs)+

text \<open>
  C2, as amended. The optimized engine sorts the rows of a chromosome by start, ascending
  and stably (rows of equal start keep their input order), before the seed loop; the
  seeds of the groups it returns (their first members) follow that sorted order, and two
  inputs with the same sorted rows give the same result. The simple engine tries the
  seeds in the order of its input, which is the start order when the caller passes the
  rows sorted by start.
\<close>

theorem seeds_tried_in_order:
  "sorted (map start_location (sorted_segments rows))
   \<and> (\<forall>v. filter (\<lambda>s. start_location s = v) (sorted_segments rows) =
            filter (\<lambda>s. start_location s = v) rows)
   \<and> (sorted_segments rows = sorted_segments rows' \<longrightarrow>
        process_chromosome_optimized (c, rows, T, k, debug) =
        process_chromosome_optimized (c, rows', T, k, debug))
   \<and> (process_chromosome_optimized (c, rows, T, k, debug) = Inr gs \<longrightarrow>
        subseq (map hd gs) (sorted_segments rows))
   \<and> subseq (map hd (find_overlapping_groups_simple rows T k)) rows
   \<and> (sorted (map start_location rows) \<longrightarrow> sorted_segments rows = rows)"
proof (intro conjI impI allI)
  show "sorted (map start_location (sorted_segments rows))"
    by (simp add: sorted_segments_def)
next
  fix v
  show "filter (\<lambda>s. start_location s = v) (sorted_segments rows) =
          filter (\<lambda>s. start_location s = v) rows"
    unfolding sorted_segments_def by (rule sort_key_stable)
next
  assume "sorted_segments rows = sorted_segments rows'"
  then show "process_chromosome_optimized (c, rows, T, k, debug) =
        process_chromosome_optimized (c, rows', T, k, debug)"
    by simp
next
  assume "process_chromosome_optimized (c, rows, T, k, debug) = Inr gs"
  then show "subseq (map hd gs) (sorted_segments rows)"
    by (rule process_seeds_in_sorted_order)
next
  show "subseq (map hd (find_overlapping_groups_simple rows T k)) rows"
    by (rule simple_seeds_in_input_order)
next
  assume "sorted (map start_location rows)"
  then show "sorted_segments rows = rows"
    unfolding sorted_segments_def by (rule sort_key_id_if_sorted)
qed

theorem seeds_tried_in_order_witness:
  "sorted_segments unsorted_rows = sorted_segments (sort_key start_location unsorted_rows)
   \<and> process_chromosome_optimized (''1'', unsorted_rows, 2000000, 2, True) =
       process_chromosome_optimized (''1'', sort_key start_location unsorted_rows, 2000000, 2, True)
   \<and> process_chromosome_optimized (''1'', unsorted_rows, 2000000, 2, True) =
       Inr [[seg 1 ''Y'' ''1'' 0 12000000, seg 0 ''X'' ''1'' 10000000 30000000],
            [seg 2 ''Z'' ''1'' 25000000 40000000, seg 0 ''X'' ''1'' 10000000 30000000]]
   \<and> subseq [seg 1 ''Y'' ''1'' 0 12000000, seg 2 ''Z'' ''1'' 25000000 40000000]
        (sorted_segments unsorted_rows)
   \<and> subseq [seg 0 ''X'' ''1'' 10000000 30000000] unsorted_rows
   \<and> sorted (map start_location (sort_key start_location unsorted_rows))
   \<and> sorted_segments (sort_key start_location unsorted_rows) =
       sort_key start_location unsorted_rows"
  using seeds_tried_in_order [of unsorted_rows "sort_key start_location unsorted_rows"
      "''1''" 2000000 2 True
      "[[seg 1 ''Y'' ''1'' 0 12000000, seg 0 ''X'' ''1'' 10000000 30000000],
        [seg 2 ''Z'' ''1'' 25000000 40000000, seg 0 ''X'' ''1'' 10000000 30000000]]"]
    seeds_tried_in_order [of "sort_key start_location unsorted_rows" unsorted_rows
      "''1''" 2000000 2 True "[]"]
    unsorted_rows_process
  by simp

text \<open>
  C3. In every returned group of the optimized and of the simple engine, each member
  collected for the seed (the first member) overlaps the seed by at least
  \<open>min_overlap_bp\<close>, with \<open>overlap_bp(A, B) = max(0, min(A.end, B.end) -
  max(A.start, B.start))\<close>; a group has at least \<open>min_group_size\<close> members, so for
  \<open>min_group_size \<ge> 2\<close> the bound holds for every member, the seed included.
  Members need not overlap each other: in the last run B and C are both in the star of A
  and do not overlap.
\<close>

theorem star_threshold_correct:
  "(detect_triangulation_groups_optimized cpus data T k w debug = Inr groups \<longrightarrow>
      (\<forall>g\<in>set groups. star_within T g \<and> k \<le> int (length g)
          \<and> (2 \<le> k \<longrightarrow> (\<forall>m\<in>set g. T \<le> overlap_bp (hd g) m))))
   \<and> (\<forall>g\<in>set (detect_triangulation_simple data T k). star_within T g \<and> k \<le> int (length g)
          \<and> (2 \<le> k \<longrightarrow> (\<forall>m\<in>set g. T \<le> overlap_bp (hd g) m)))
   \<and> detect_triangulation_groups_optimized 4
        [seg 0 ''A'' ''1'' 0 30, seg 1 ''B'' ''1'' 0 10, seg 2 ''C'' ''1'' 20 30] 5 2 None False
      = Inr [[seg 0 ''A'' ''1'' 0 30, seg 1 ''B'' ''1'' 0 10, seg 2 ''C'' ''1'' 20 30]]
   \<and> overlap_bp (seg 1 ''B'' ''1'' 0 10) (seg 2 ''C'' ''1'' 20 30) < 5"
proof (intro conjI impI)
  assume run: "detect_triangulation_groups_optimized cpus data T k w debug = Inr groups"
  have "\<forall>g\<in>set groups. star_within T g \<and> k \<le> int (length g)"
    by (rule detect_optimized_all [OF run]) (simp add: star_within_optimized)
  then show "\<forall>g\<in>set groups. star_within T g \<and> k \<le> int (length g)
          \<and> (2 \<le> k \<longrightarrow> (\<forall>m\<in>set g. T \<le> overlap_bp (hd g) m))"
    by (blast intro: star_within_all_members)
next
  have "\<forall>g\<in>set (detect_triangulation_simple data T k). star_within T g \<and> k \<le> int (length g)"
    by (rule detect_simple_all) (simp add: simple_groups_star simple_groups_min_size)
  then show "\<forall>g\<in>set (detect_triangulation_simple data T k). star_within T g \<and> k \<le> int (length g)
          \<and> (2 \<le> k \<longrightarrow> (\<forall>m\<in>set g. T \<le> overlap_bp (hd g) m))"
    by (blast intro: star_within_all_members)
next
  show "detect_triangulation_groups_optimized 4
        [seg 0 ''A'' ''1'' 0 30, seg 1 ''B'' ''1'' 0 10, seg 2 ''C'' ''1'' 20 30] 5 2 None False
      = Inr [[seg 0 ''A'' ''1'' 0 30, seg 1 ''B'' ''1'' 0 10, seg 2 ''C'' ''1'' 20 30]]"
    by (rule star_example)
next
  show "overlap_bp (seg 1 ''B'' ''1'' 0 10) (seg 2 ''C'' ''1'' 20 30) < 5"
    by (simp add: run_simps)
qed

theorem star_threshold_correct_witness:
  "detect_triangulation_groups_optimized 4 example_rows 1000000 2 None True =
     Inr [[seg 0 ''A'' ''1'' 0 10000000, seg 1 ''B'' ''1'' 5000000 15000000],
          [seg 2 ''C'' ''1'' 9500000 20000000, seg 1 ''B'' ''1'' 5000000 15000000]]
   \<and> (2::int) \<le> 2
   \<and> 1000000 \<le> overlap_bp (seg 2 ''C'' ''1'' 9500000 20000000) (seg 1 ''B'' ''1'' 5000000 15000000)
   \<and> 1000000 \<le> overlap_bp (seg 0 ''A'' ''1'' 0 10000000) (seg 1 ''B'' ''1'' 5000000 15000000)
   \<and> star_within 1000000 [seg 0 ''A'' ''1'' 0 10000000, seg 1 ''B'' ''1'' 5000000 15000000]"
  using star_threshold_correct [of 4 example_rows 1000000 2 None True
      "[[seg 0 ''A'' ''1'' 0 10000000, seg 1 ''B'' ''1'' 5000000 15000000],
        [seg 2 ''C'' ''1'' 9500000 20000000, seg 1 ''B'' ''1'' 5000000 15000000]]"]
  by (simp add: example_rows_optimized example_rows_detect_simple)

text \<open>
  C4. For a candidate list of at most five segments the strict pass does not return the
  largest connected component. On \<open>lone_first\<close> it returns the first segment alone,
  though the other two segments overlap and so form a component of two. On
  \<open>late_link\<close> it returns A and C and leaves out B, which overlaps C and so is in the
  component of A: what it returns there is not a whole component.
\<close>

theorem small_candidate_set_not_largest_component:
  "verify_triangulation_group (\<lambda>xs. xs) lone_first 2 = Inr [seg 0 ''A'' ''1'' 0 10]
   \<and> {1, 2} \<subseteq> component_of lone_first 2 1
   \<and> verify_triangulation_group (\<lambda>xs. xs) late_link 2 =
       Inr [seg 0 ''A'' ''1'' 0 10, seg 2 ''C'' ''1'' 5 25]
   \<and> {0, 1, 2} \<subseteq> component_of late_link 2 0"
  by (intro conjI strict_pass_examples strict_pass_components)

text \<open>
  C4, as amended. For more than five candidates the strict pass returns a largest
  connected component of the pairwise-overlap graph over the candidate list: the
  segments of one whole component, each once, and no component has more members. This
  holds for every order in which the neighbour sets are iterated. For two to five
  candidates it returns the first segment followed by the later segments at the positions
  \<open>js\<close>, in their order, where a later segment is kept exactly when it overlaps the
  first segment or a later segment kept before it; so every kept segment overlaps one
  kept before it, and every segment that overlaps the first one is kept. For fewer than
  two candidates it returns the list as it is.
\<close>

theorem strict_pass_result:
  assumes "\<forall>xs. set (iter xs) = set xs"
  shows "(length segs < 2 \<longrightarrow> verify_triangulation_group iter segs T = Inr segs)
   \<and> (2 \<le> length segs \<and> length segs \<le> 5 \<longrightarrow>
        (\<exists>extra js. verify_triangulation_group iter segs T = Inr (hd segs # extra)
            \<and> subseq extra (tl segs)
            \<and> (\<forall>k<length extra. \<exists>v\<in>set (hd segs # take k extra).
                   T \<le> overlap_bp (extra ! k) v)
            \<and> (\<forall>c\<in>set (tl segs). T \<le> overlap_bp c (hd segs) \<longrightarrow> c \<in> set extra)
            \<and> extra = map ((!) (tl segs)) js
            \<and> sorted_wrt (<) js \<and> set js \<subseteq> {..<length (tl segs)}
            \<and> (\<forall>j<length (tl segs). j \<in> set js \<longleftrightarrow>
                  (\<exists>v\<in>set (hd segs # map ((!) (tl segs)) (filter (\<lambda>i. i < j) js)).
                     T \<le> overlap_bp (tl segs ! j) v))))
   \<and> (5 < length segs \<longrightarrow>
        (\<exists>nodes v. verify_triangulation_group iter segs T = Inr (map ((!) segs) nodes)
            \<and> distinct nodes \<and> v < length segs \<and> set nodes = component_of segs T v
            \<and> (\<forall>w<length segs. card (component_of segs T w) \<le> length nodes)))"
proof (intro conjI impI)
  assume "length segs < 2"
  then show "verify_triangulation_group iter segs T = Inr segs"
    by (simp add: verify_triangulation_group_def)
next
  assume small: "2 \<le> length segs \<and> length segs \<le> 5"
  from verify_small_loop_keeps [of T "tl segs" "[hd segs]"] obtain extra where
    e: "verify_small_loop T (tl segs) [hd segs] = [hd segs] @ extra" "subseq extra (tl segs)"
       "\<forall>k<length extra. \<exists>v\<in>set ([hd segs] @ take k extra). T \<le> overlap_bp (extra ! k) v"
       "\<forall>c\<in>set (tl segs). (\<exists>v\<in>set [hd segs]. T \<le> overlap_bp c v) \<longrightarrow> c \<in> set extra"
    by blast
  from verify_small_loop_positions [of T "tl segs" "[hd segs]"] obtain js where
    p: "verify_small_loop T (tl segs) [hd segs] = [hd segs] @ map ((!) (tl segs)) js"
       "sorted_wrt (<) js" "set js \<subseteq> {..<length (tl segs)}"
       "\<forall>j<length (tl segs). j \<in> set js \<longleftrightarrow>
          (\<exists>v\<in>set ([hd segs] @ map ((!) (tl segs)) (filter (\<lambda>i. i < j) js)).
             T \<le> overlap_bp (tl segs ! j) v)"
    by blast
  have r: "verify_triangulation_group iter segs T = Inr (hd segs # extra)"
    using small e(1) by (simp add: verify_triangulation_group_def)
  have c3: "\<forall>k<length extra. \<exists>v\<in>set (hd segs # take k extra). T \<le> overlap_bp (extra ! k) v"
    using e(3) by simp
  have c4: "\<forall>c\<in>set (tl segs). T \<le> overlap_bp c (hd segs) \<longrightarrow> c \<in> set extra"
    using e(4) by simp
  have c5: "extra = map ((!) (tl segs)) js" using e(1) p(1) by simp
  have c8: "\<forall>j<length (tl segs). j \<in> set js \<longleftrightarrow>
          (\<exists>v\<in>set (hd segs # map ((!) (tl segs)) (filter (\<lambda>i. i < j) js)).
             T \<le> overlap_bp (tl segs ! j) v)"
    using p(4) by simp
  from r e(2) c3 c4 c5 p(2,3) c8
  show "\<exists>extra js. verify_triangulation_group iter segs T = Inr (hd segs # extra)
            \<and> subseq extra (tl segs)
            \<and> (\<forall>k<length extra. \<exists>v\<in>set (hd segs # take k extra).
                   T \<le> overlap_bp (extra ! k) v)
            \<and> (\<forall>c\<in>set (tl segs). T \<le> overlap_bp c (hd segs) \<longrightarrow> c \<in> set extra)
            \<and> extra = map ((!) (tl segs)) js
            \<and> sorted_wrt (<) js \<and> set js \<subseteq> {..<length (tl segs)}
            \<and> (\<forall>j<length (tl segs). j \<in> set js \<longleftrightarrow>
                  (\<exists>v\<in>set (hd segs # map ((!) (tl segs)) (filter (\<lambda>i. i < j) js)).
                     T \<le> overlap_bp (tl segs ! j) v))"
    by blast
next
  assume large: "5 < length segs"
  then have "2 \<le> length segs" by simp
  from find_connected_components_largest [OF this assms, of T] large
  show "\<exists>nodes v. verify_triangulation_group iter segs T = Inr (map ((!) segs) nodes)
            \<and> distinct nodes \<and> v < length segs \<and> set nodes = component_of segs T v
            \<and> (\<forall>w<length segs. card (component_of segs T w) \<le> length nodes)"
    by (simp add: verify_triangulation_group_def)
qed

theorem strict_pass_result_witness:
  "(\<forall>xs :: nat list. set (rev xs) = set xs)
   \<and> (5::nat) < length six_segments
   \<and> verify_triangulation_group rev six_segments 2 =
       Inr [seg 1 ''B'' ''1'' 20 30, seg 2 ''C'' ''1'' 25 40, seg 3 ''D'' ''1'' 35 50]
   \<and> (\<exists>nodes v. verify_triangulation_group rev six_segments 2 = Inr (map ((!) six_segments) nodes)
         \<and> distinct nodes \<and> v < length six_segments
         \<and> set nodes = component_of six_segments 2 v
         \<and> (\<forall>w<length six_segments. card (component_of six_segments 2 w) \<le> length nodes))
   \<and> (2::nat) \<le> length chain_link \<and> length chain_link \<le> 5
   \<and> verify_triangulation_group rev chain_link 2 =
       Inr [seg 0 ''A'' ''1'' 0 10, seg 2 ''C'' ''1'' 5 25, seg 1 ''B'' ''1'' 20 30]
   \<and> overlap_bp (seg 1 ''B'' ''1'' 20 30) (seg 0 ''A'' ''1'' 0 10) < 2
   \<and> (\<exists>extra js. verify_triangulation_group rev chain_link 2 = Inr (hd chain_link # extra)
         \<and> subseq extra (tl chain_link)
         \<and> extra = map ((!) (tl chain_link)) js
         \<and> sorted_wrt (<) js \<and> set js \<subseteq> {..<length (tl chain_link)}
         \<and> (\<forall>j<length (tl chain_link). j \<in> set js \<longleftrightarrow>
               (\<exists>v\<in>set (hd chain_link # map ((!) (tl chain_link)) (filter (\<lambda>i. i < j) js)).
                  2 \<le> overlap_bp (tl chain_link ! j) v)))
   \<and> (2::nat) \<le> length lone_first \<and> length lone_first \<le> 5
   \<and> (\<exists>extra. verify_triangulation_group rev lone_first 2 = Inr (hd lone_first # extra)
         \<and> subseq extra (tl lone_first))
   \<and> length [seg 0 ''A'' ''1'' 0 10] < 2
   \<and> verify_triangulation_group rev [seg 0 ''A'' ''1'' 0 10] 2 = Inr [seg 0 ''A'' ''1'' 0 10]"
proof -
  have it: "\<forall>xs :: nat list. set (rev xs) = set xs" by simp
  have six: "(5::nat) < length six_segments" by (simp add: six_segments_def)
  have chain: "(2::nat) \<le> length chain_link \<and> length chain_link \<le> 5"
    by (simp add: chain_link_def)
  have three: "(2::nat) \<le> length lone_first \<and> length lone_first \<le> 5"
    by (simp add: lone_first_def)
  have one: "length [seg 0 ''A'' ''1'' 0 10] < 2" by simp
  from strict_pass_result [OF it, of six_segments 2] six
  have a: "\<exists>nodes v. verify_triangulation_group rev six_segments 2 = Inr (map ((!) six_segments) nodes)
         \<and> distinct nodes \<and> v < length six_segments
         \<and> set nodes = component_of six_segments 2 v
         \<and> (\<forall>w<length six_segments. card (component_of six_segments 2 w) \<le> length nodes)"
    by blast
  from strict_pass_result [OF it, of chain_link 2] chain
  have b0: "\<exists>extra js. verify_triangulation_group rev chain_link 2 = Inr (hd chain_link # extra)
         \<and> subseq extra (tl chain_link)
         \<and> extra = map ((!) (tl chain_link)) js
         \<and> sorted_wrt (<) js \<and> set js \<subseteq> {..<length (tl chain_link)}
         \<and> (\<forall>j<length (tl chain_link). j \<in> set js \<longleftrightarrow>
               (\<exists>v\<in>set (hd chain_link # map ((!) (tl chain_link)) (filter (\<lambda>i. i < j) js)).
                  2 \<le> overlap_bp (tl chain_link ! j) v))"
    by blast
  from strict_pass_result [OF it, of lone_first 2] three
  have b: "\<exists>extra. verify_triangulation_group rev lone_first 2 = Inr (hd lone_first # extra)
         \<and> subseq extra (tl lone_first)"
    by blast
  from strict_pass_result [OF it, of "[seg 0 ''A'' ''1'' 0 10]" 2] one
  have c: "verify_triangulation_group rev [seg 0 ''A'' ''1'' 0 10] 2 = Inr [seg 0 ''A'' ''1'' 0 10]"
    by blast
  from it six strict_pass_examples(5) a chain chain_link_run b0 three b one c
  show ?thesis by blast
qed

text \<open>
  C5. A fault in one chromosome is not isolated. On rows whose chromosome 1 has a row
  without a name (with \<open>debug\<close> on, as the caller sets it), the worker of chromosome 1
  raises AttributeError, the worker of chromosome 2 alone finds a group, and the run as a
  whole returns the fault and no group; the caller shows the one error, which names no
  chromosome.
\<close>

theorem partition_failure_not_isolated:
  "process_chromosome_optimized
     (''1'', filter (\<lambda>s. chromosome s = ''1'') faulty_rows, 1000000, 2, True) = Inl AttributeError
   \<and> process_chromosome_optimized
     (''2'', filter (\<lambda>s. chromosome s = ''2'') faulty_rows, 1000000, 2, True)
       = Inr [[seg 2 ''C'' ''2'' 0 10000000, seg 3 ''D'' ''2'' 5000000 15000000]]
   \<and> detect_triangulation_groups_optimized 4 faulty_rows 1000000 2 None True = Inl AttributeError
   \<and> run_analysis_optimized 4 faulty_rows 1000000 2 = AnalysisError AttributeError"
  by (simp add: faulty_rows_run faulty_rows_chr2 run_analysis_optimized_def)
     (simp add: run_simps faulty_rows_def nameless_def)

text \<open>
  C5, as amended. Whenever the processing of some scheduled chromosome raises a fault, the
  whole run of the optimized engine ends in a fault and returns no group at all, and the
  caller's \<open>run_analysis\<close> reports a single analysis error; groups are returned only
  when every scheduled chromosome was processed without fault.
\<close>

theorem partition_failure_aborts_run:
  "(a \<in> set (args_list_of data T k debug) \<and> process_chromosome_optimized a = Inl e \<longrightarrow>
      (\<exists>e'. detect_triangulation_groups_optimized cpus data T k w debug = Inl e'))
   \<and> (a \<in> set (args_list_of data T k True) \<and> process_chromosome_optimized a = Inl e \<longrightarrow>
      (\<exists>e'. run_analysis_optimized cpus data T k = AnalysisError e'))
   \<and> (detect_triangulation_groups_optimized cpus data T k w debug = Inr groups \<longrightarrow>
      (\<forall>b\<in>set (args_list_of data T k debug). \<exists>gs. process_chromosome_optimized b = Inr gs))"
proof (intro conjI impI)
  assume "a \<in> set (args_list_of data T k debug) \<and> process_chromosome_optimized a = Inl e"
  then show "\<exists>e'. detect_triangulation_groups_optimized cpus data T k w debug = Inl e'"
    using detect_failure by blast
next
  assume "a \<in> set (args_list_of data T k True) \<and> process_chromosome_optimized a = Inl e"
  then obtain e' where "detect_triangulation_groups_optimized cpus data T k None True = Inl e'"
    using detect_failure by blast
  then show "\<exists>e'. run_analysis_optimized cpus data T k = AnalysisError e'"
    by (simp add: run_analysis_optimized_def)
next
  assume "detect_triangulation_groups_optimized cpus data T k w debug = Inr groups"
  then show "\<forall>b\<in>set (args_list_of data T k debug). \<exists>gs. process_chromosome_optimized b = Inr gs"
    by (rule detect_success)
qed

theorem partition_failure_aborts_run_witness:
  "(''1'', filter (\<lambda>s. chromosome s = ''1'') faulty_rows, 1000000, 2, True)
     \<in> set (args_list_of faulty_rows 1000000 2 True)
   \<and> process_chromosome_optimized
     (''1'', filter (\<lambda>s. chromosome s = ''1'') faulty_rows, 1000000, 2, True) = Inl AttributeError
   \<and> (\<exists>e'. detect_triangulation_groups_optimized 4 faulty_rows 1000000 2 (Some 2) True = Inl e')
   \<and> (\<exists>e'. run_analysis_optimized 4 faulty_rows 1000000 2 = AnalysisError e')
   \<and> detect_triangulation_groups_optimized 4 example_rows 1000000 2 None True =
     Inr [[seg 0 ''A'' ''1'' 0 10000000, seg 1 ''B'' ''1'' 5000000 15000000],
          [seg 2 ''C'' ''1'' 9500000 20000000, seg 1 ''B'' ''1'' 5000000 15000000]]
   \<and> (\<exists>gs. process_chromosome_optimized (''1'', example_rows, 1000000, 2, True) = Inr gs)"
  using partition_failure_aborts_run [of
      "(''1'', filter (\<lambda>s. chromosome s = ''1'') faulty_rows, 1000000, 2, True)"
      faulty_rows 1000000 2 True AttributeError 4 "Some 2"]
    partition_failure_aborts_run [of
      "(''1'', filter (\<lambda>s. chromosome s = ''1'') faulty_rows, 1000000, 2, True)"
      example_rows 1000000 2 True AttributeError 4 None
      "[[seg 0 ''A'' ''1'' 0 10000000, seg 1 ''B'' ''1'' 5000000 15000000],
        [seg 2 ''C'' ''1'' 9500000 20000000, seg 1 ''B'' ''1'' 5000000 15000000]]"]
    faulty_rows_args faulty_rows_chr1 example_rows_optimized example_rows_args
  by simp




text \<open>
  C7. The groups returned by the optimized engine do not depend on the number of worker
  processes, nor on the machine's processor count behind the default: for any two worker
  counts a pool can be made with (at least 1, or the default), equal data and
  configuration give equal results, groups or fault alike.
\<close>

theorem detect_independent_of_workers:
  assumes "\<forall>n. w1 = Some n \<longrightarrow> 1 \<le> n" and "\<forall>n. w2 = Some n \<longrightarrow> 1 \<le> n"
  shows "detect_triangulation_groups_optimized cpus1 data T k w1 debug =
         detect_triangulation_groups_optimized cpus2 data T k w2 debug"
  by (simp add: workers_irrelevant [OF assms(1)] workers_irrelevant [OF assms(2)])

theorem detect_independent_of_workers_witness:
  "detect_triangulation_groups_optimized 1 example_rows 1000000 2 (Some 1) True =
   detect_triangulation_groups_optimized 16 example_rows 1000000 2 None True
   \<and> detect_triangulation_groups_optimized 16 example_rows 1000000 2 (Some 8) True =
     Inr [[seg 0 ''A'' ''1'' 0 10000000, seg 1 ''B'' ''1'' 5000000 15000000],
          [seg 2 ''C'' ''1'' 9500000 20000000, seg 1 ''B'' ''1'' 5000000 15000000]]"
proof -
  have a: "\<forall>n. Some (1::int) = Some n \<longrightarrow> 1 \<le> n" by simp
  have b: "\<forall>n. (None :: int option) = Some n \<longrightarrow> 1 \<le> n" by simp
  have c: "\<forall>n. Some (8::int) = Some n \<longrightarrow> 1 \<le> n" by simp
  have d: "\<forall>n. (None :: int option) = Some n \<longrightarrow> 1 \<le> n" by simp
  show ?thesis
    using detect_independent_of_workers [OF a b, of 1 example_rows 1000000 2 True 16]
      detect_independent_of_workers [OF c d, of 16 example_rows 1000000 2 True 4]
    by (simp add: example_rows_optimized)
qed

text \<open>
  C8. \<open>extract_surname\<close> is the rule of the specification: the four literals are
  stripped, the rest is trimmed and split on whitespace, and the surname is the last token
  if at least two remain, else the sole token, else \<open>Unknown\<close>. \<open>Dr. Jane A. Smith\<close>
  gives \<open>Smith\<close>, \<open>Madonna\<close> gives \<open>Madonna\<close>, the empty and the missing name give
  \<open>Unknown\<close>. The further names are ones where the stripping decides the answer: a
  title at the end or alone is not the surname, each of the four literals is stripped,
  every time it occurs, also inside a word, and only in its exact spelling.
\<close>

theorem extract_surname_is_rule:
  "extract_surname name_cell = surname_rule name_cell
   \<and> extract_surname (Some ''Dr. Jane A. Smith'') = ''Smith''
   \<and> extract_surname (Some ''Madonna'') = ''Madonna''
   \<and> extract_surname (Some '''') = ''Unknown''
   \<and> extract_surname None = ''Unknown''
   \<and> extract_surname (Some ''Smith Ph.D.'') = ''Smith''
   \<and> extract_surname (Some ''Mr. '') = ''Unknown''
   \<and> extract_surname (Some ''Ph.D. Dr.'') = ''Unknown''
   \<and> extract_surname (Some ''Anna Mr.'') = ''Anna''
   \<and> extract_surname (Some ''Anna Mrs.'') = ''Anna''
   \<and> extract_surname (Some ''Madonna Dr.'') = ''Madonna''
   \<and> extract_surname (Some ''Mrs. Anna van Dyke Ph.D.'') = ''Dyke''
   \<and> extract_surname (Some ''Jane Dr.Smith'') = ''Smith''
   \<and> extract_surname (Some ''Jane Smith dr.'') = ''dr.''
   \<and> extract_surname (Some ''  Jane   Smith  '') = ''Smith''
   \<and> extract_surname (Some ''Anna Dr. Dr.'') = ''Anna''
   \<and> extract_surname (Some ''Anna Ph.D'') = ''Ph.D''"
proof (intro conjI)
  show "extract_surname name_cell = surname_rule name_cell" by (rule extract_surname_rule)
  show "extract_surname (Some ''Dr. Jane A. Smith'') = ''Smith''" by code_simp
  show "extract_surname (Some ''Madonna'') = ''Madonna''" by code_simp
  show "extract_surname (Some '''') = ''Unknown''" by code_simp
  show "extract_surname None = ''Unknown''" by code_simp
  show "extract_surname (Some ''Smith Ph.D.'') = ''Smith''" by code_simp
  show "extract_surname (Some ''Mr. '') = ''Unknown''" by code_simp
  show "extract_surname (Some ''Ph.D. Dr.'') = ''Unknown''" by code_simp
  show "extract_surname (Some ''Anna Mr.'') = ''Anna''" by code_simp
  show "extract_surname (Some ''Anna Mrs.'') = ''Anna''" by code_simp
  show "extract_surname (Some ''Madonna Dr.'') = ''Madonna''" by code_simp
  show "extract_surname (Some ''Mrs. Anna van Dyke Ph.D.'') = ''Dyke''" by code_simp
  show "extract_surname (Some ''Jane Dr.Smith'') = ''Smith''" by code_simp
  show "extract_surname (Some ''Jane Smith dr.'') = ''dr.''" by code_simp
  show "extract_surname (Some ''  Jane   Smith  '') = ''Smith''" by code_simp
  show "extract_surname (Some ''Anna Dr. Dr.'') = ''Anna''" by code_simp
  show "extract_surname (Some ''Anna Ph.D'') = ''Ph.D''" by code_simp
qed

text \<open>
  C9. Inside one group every member occurs once. In the optimized and the original engine
  a member is identified by its row label, in the simple engine by its position in the
  chromosome's list. This holds for the star of any seed after any part of the scan, and
  for every group the engines return.
\<close>

theorem group_members_unique:
  "(\<forall>i seed scan. distinct (map row_index
        (fst (collect_optimized T i seed scan ([seed], [row_index seed])))))
   \<and> (detect_triangulation_groups_optimized cpus data T k w debug = Inr groups \<longrightarrow>
        (\<forall>g\<in>set groups. distinct (map row_index g)))
   \<and> (\<forall>i seed used n. distinct (map fst
        (fst (collect_simple T i seed used (take n (enumerate 0 segments)) ([(i, seed)], [i])))))
   \<and> (\<forall>g\<in>set (find_overlapping_groups_simple segments T k).
        \<exists>js. distinct js \<and> (\<forall>j\<in>set js. j < length segments) \<and> g = map ((!) segments) js)
   \<and> (\<forall>row1 rows. distinct (map row_index (collect_original T row1 rows [row1])))
   \<and> (\<forall>g\<in>set (detect_triangulation_groups sort_values data T k). distinct (map row_index g))"
proof (intro conjI impI allI)
  fix i seed scan
  show "distinct (map row_index (fst (collect_optimized T i seed scan ([seed], [row_index seed]))))"
    by (rule collect_optimized_distinct) simp_all
next
  assume "detect_triangulation_groups_optimized cpus data T k w debug = Inr groups"
  then show "\<forall>g\<in>set groups. distinct (map row_index g)"
    by (rule detect_optimized_all) (rule collect_optimized_distinct, simp_all)
next
  fix i seed used n
  show "distinct (map fst
        (fst (collect_simple T i seed used (take n (enumerate 0 segments)) ([(i, seed)], [i]))))"
    by (rule collect_simple_distinct) (rule distinct_fst_take_enumerate)
next
  show "\<forall>g\<in>set (find_overlapping_groups_simple segments T k).
        \<exists>js. distinct js \<and> (\<forall>j\<in>set js. j < length segments) \<and> g = map ((!) segments) js"
  proof
    fix g assume "g \<in> set (find_overlapping_groups_simple segments T k)"
    then obtain gp where gp: "gp \<in> set (find_overlapping_positions_simple segments T k)"
      and g: "g = map snd gp"
      by (auto simp: find_overlapping_groups_simple_def)
    from gp simple_positions_within have w: "set gp \<subseteq> set (enumerate 0 segments)" by blast
    from gp simple_positions_distinct have "distinct (map fst gp)" by blast
    moreover have "\<forall>j\<in>set (map fst gp). j < length segments"
    proof
      fix j assume "j \<in> set (map fst gp)"
      then obtain m where "(j, m) \<in> set gp" by auto
      with w have "(j, m) \<in> set (enumerate 0 segments)" by blast
      then show "j < length segments" by (simp add: in_enumerate_nth)
    qed
    moreover from w g have "g = map ((!) segments) (map fst gp)"
      by (simp add: rows_of_positions)
    ultimately show "\<exists>js. distinct js \<and> (\<forall>j\<in>set js. j < length segments) \<and> g = map ((!) segments) js"
      by blast
  qed
next
  fix row1 rows
  show "distinct (map row_index (collect_original T row1 rows [row1]))"
    by (rule collect_original_distinct) simp
next
  show "\<forall>g\<in>set (detect_triangulation_groups sort_values data T k). distinct (map row_index g)"
    by (rule detect_original_all) (rule collect_original_distinct, simp)
qed

theorem group_members_unique_witness:
  "detect_triangulation_groups_optimized 4 example_rows 1000000 2 None True =
     Inr [[seg 0 ''A'' ''1'' 0 10000000, seg 1 ''B'' ''1'' 5000000 15000000],
          [seg 2 ''C'' ''1'' 9500000 20000000, seg 1 ''B'' ''1'' 5000000 15000000]]
   \<and> distinct (map row_index [seg 2 ''C'' ''1'' 9500000 20000000, seg 1 ''B'' ''1'' 5000000 15000000])
   \<and> (\<exists>js. distinct js \<and> (\<forall>j\<in>set js. j < length example_rows)
         \<and> [seg 0 ''A'' ''1'' 0 10000000, seg 1 ''B'' ''1'' 5000000 15000000] = map ((!) example_rows) js)
   \<and> distinct (map row_index [seg 1 ''B'' ''1'' 5000000 15000000, seg 2 ''C'' ''1'' 9500000 20000000])"
  using group_members_unique [of 1000000 4 example_rows 2 None True
      "[[seg 0 ''A'' ''1'' 0 10000000, seg 1 ''B'' ''1'' 5000000 15000000],
        [seg 2 ''C'' ''1'' 9500000 20000000, seg 1 ''B'' ''1'' 5000000 15000000]]"
      example_rows "sort_key start_location"]
  by (simp add: example_rows_optimized example_rows_simple example_rows_original)

text \<open>
  C10. In both engines the argument \<open>min_cm_filter\<close> of
  \<open>create_triangulation_report_by_size\<close> decides only whether the line
  \<open>(Filtered to show only matches \<ge> ... cM)\<close> is in the header, and with which
  number. For a fixed list of groups, the reports for any two values of the argument are
  the same once that line is taken out; the report for a value is the report for
  \<open>None\<close> with the note put after the third line; and with no groups the report is the
  one line \<open>No triangulation groups found.\<close> for every value.
\<close>

theorem filter_argument_only_adds_note:
  "without_filter_note (create_triangulation_report_by_size_optimized groups f1) =
     without_filter_note (create_triangulation_report_by_size_optimized groups f2)
   \<and> without_filter_note (create_triangulation_report_by_size_simple groups f1) =
     without_filter_note (create_triangulation_report_by_size_simple groups f2)
   \<and> (groups \<noteq> [] \<longrightarrow>
        create_triangulation_report_by_size_optimized groups f1 =
          with_filter_note f1 (create_triangulation_report_by_size_optimized groups None)
        \<and> create_triangulation_report_by_size_simple groups f1 =
          with_filter_note f1 (create_triangulation_report_by_size_simple groups None))
   \<and> (groups = [] \<longrightarrow>
        create_triangulation_report_by_size_optimized groups f1 =
          Inr [Text ''No triangulation groups found.'']
        \<and> create_triangulation_report_by_size_simple groups f1 =
          Inr [Text ''No triangulation groups found.''])"
proof (cases "groups = []")
  case True
  then show ?thesis
    by (simp add: create_triangulation_report_by_size_optimized_def
        create_triangulation_report_by_size_simple_def)
next
  case False
  have a: "without_filter_note (create_triangulation_report_by_size_optimized groups f) =
      without_filter_note (create_triangulation_report_by_size_optimized groups None)" for f
    by (simp only: report_optimized_note [OF False, of f] without_with_filter_note)
  have b: "without_filter_note (create_triangulation_report_by_size_simple groups f) =
      without_filter_note (create_triangulation_report_by_size_simple groups None)" for f
    by (simp only: report_simple_note [OF False, of f] without_with_filter_note)
  show ?thesis
  proof (intro conjI impI)
    show "without_filter_note (create_triangulation_report_by_size_optimized groups f1) =
        without_filter_note (create_triangulation_report_by_size_optimized groups f2)"
      by (simp only: a [of f1] a [of f2])
    show "without_filter_note (create_triangulation_report_by_size_simple groups f1) =
        without_filter_note (create_triangulation_report_by_size_simple groups f2)"
      by (simp only: b [of f1] b [of f2])
    show "create_triangulation_report_by_size_optimized groups f1 =
        with_filter_note f1 (create_triangulation_report_by_size_optimized groups None)"
      by (rule report_optimized_note [OF False])
    show "create_triangulation_report_by_size_simple groups f1 =
        with_filter_note f1 (create_triangulation_report_by_size_simple groups None)"
      by (rule report_simple_note [OF False])
  qed (simp_all add: False)
qed

theorem filter_argument_only_adds_note_witness:
  "[[seg 0 ''Dr. Jane A. Smith'' ''1'' 0 10000000, seg 1 ''Bob Smith'' ''1'' 5000000 15000000]] \<noteq> []
   \<and> without_filter_note (create_triangulation_report_by_size_optimized
       [[seg 0 ''Dr. Jane A. Smith'' ''1'' 0 10000000, seg 1 ''Bob Smith'' ''1'' 5000000 15000000]]
       (Some 7)) =
     without_filter_note (create_triangulation_report_by_size_optimized
       [[seg 0 ''Dr. Jane A. Smith'' ''1'' 0 10000000, seg 1 ''Bob Smith'' ''1'' 5000000 15000000]]
       (Some 20))
   \<and> create_triangulation_report_by_size_simple
       [[seg 0 ''Dr. Jane A. Smith'' ''1'' 0 10000000, seg 1 ''Bob Smith'' ''1'' 5000000 15000000]]
       (Some 7) =
     with_filter_note (Some 7) (create_triangulation_report_by_size_simple
       [[seg 0 ''Dr. Jane A. Smith'' ''1'' 0 10000000, seg 1 ''Bob Smith'' ''1'' 5000000 15000000]]
       None)
   \<and> create_triangulation_report_by_size_optimized [] (Some 7) =
       Inr [Text ''No triangulation groups found.'']"
  using filter_argument_only_adds_note [of
      "[[seg 0 ''Dr. Jane A. Smith'' ''1'' 0 10000000, seg 1 ''Bob Smith'' ''1'' 5000000 15000000]]"
      "Some 7" "Some 20"]
    filter_argument_only_adds_note [of "[]" "Some 7" None]
  by blast

end
